theory Spec2Isabelle
  imports Main "HOL-Library.Word"
begin

unbundle bit_operations_syntax

section \<open>Data model and operations\<close>

text \<open>
  The embedding follows \<^verbatim>\<open>src/Pyjion/absint.h\<close> and \<^verbatim>\<open>src/Pyjion/ilgen.h\<close>.
  A failed \<^verbatim>\<open>assert\<close>/\<^verbatim>\<open>_ASSERTE\<close> and a read or write outside a vector are
  results of the model (\<open>Inl\<close> of an \<open>error\<close>), never unspecified values.
\<close>

datatype error =
  AssertionFailed
  | IndexOutOfRange
  | EmptyStack
  | StackDepthMismatch
  | LocalCountMismatch
  | NoStartState

subsection \<open>Abstract values (absvalue.h)\<close>

text \<open>
  Modelled from the spec: \<^verbatim>\<open>absvalue.h\<close> is not among the sources. Section 3 of the
  specification describes an abstract value as an interned tag from a closed enumeration
  of kinds (Undefined, Bool, Int, Float, Bytes, Sequence-like, generic Object), compared
  by identity. A pointer to a flyweight is therefore modelled by the tag itself, and no
  tag is the null pointer.
\<close>

datatype AbstractValue =
  Undefined
  | AV_Bool
  | AV_Int
  | AV_Float
  | AV_Bytes
  | AV_Sequence
  | AV_Object

text \<open>
  Modelled from the spec: a source is a provenance tag naming the local slot, the constant
  pool entry or the synthetic intermediate that produced a value. The arguments are those
  of \<^verbatim>\<open>add_local_source\<close>, \<^verbatim>\<open>add_const_source\<close> and \<^verbatim>\<open>add_intermediate_source\<close>
  declared in \<^verbatim>\<open>absint.h\<close>: an opcode index, and a local or constant index.
\<close>

datatype AbstractSource =
  LocalSource nat nat
  | ConstSource nat nat
  | IntermediateSource nat

text \<open>
  Modelled from the spec: an abstract value paired with its set of sources.
\<close>

record AbstractValueWithSources =
  Value :: AbstractValue
  Sources :: "AbstractSource set"

text \<open>
  Modelled from the spec: the value \<^verbatim>\<open>AbstractValueWithSources()\<close> that the default
  constructor of \<^verbatim>\<open>AbstractLocalInfo\<close> stores. The comment above that struct says that
  all locals start out with "a special typeof Undefined".
\<close>

definition AbstractValueWithSources_default :: AbstractValueWithSources where
  "AbstractValueWithSources_default = \<lparr>Value = Undefined, Sources = {}\<rparr>"

text \<open>
  Modelled from the spec (section 4.2): if either side is Undefined the result takes the
  other side's kind; equal kinds stay; different kinds widen to the generic Object kind.
\<close>

definition AbstractValue_merge_with :: "AbstractValue \<Rightarrow> AbstractValue \<Rightarrow> AbstractValue" where
  "AbstractValue_merge_with a b =
     (if a = Undefined then b
      else if b = Undefined then a
      else if a = b then a
      else AV_Object)"

text \<open>
  Modelled from the spec (section 4.2): kinds merge as above, source sets union.
\<close>

definition AbstractValueWithSources_merge_with ::
  "AbstractValueWithSources \<Rightarrow> AbstractValueWithSources \<Rightarrow> AbstractValueWithSources" where
  "AbstractValueWithSources_merge_with v other =
     \<lparr>Value = AbstractValue_merge_with (Value v) (Value other),
      Sources = Sources v \<union> Sources other\<rparr>"

subsection \<open>AbstractLocalInfo (absint.h, lines 73 to 106)\<close>

record AbstractLocalInfo =
  ValueInfo :: AbstractValueWithSources
  IsMaybeUndefined :: bool

text \<open>The default constructor.\<close>

definition AbstractLocalInfo_default :: AbstractLocalInfo where
  "AbstractLocalInfo_default =
     \<lparr>ValueInfo = AbstractValueWithSources_default, IsMaybeUndefined = True\<rparr>"

text \<open>
  The checked constructor. Its first assertion (the value pointer is not null) holds of
  every tag; its second assertion rejects the Undefined kind with \<open>isUndefined = False\<close>.
\<close>

definition AbstractLocalInfo_init ::
  "AbstractValueWithSources \<Rightarrow> bool \<Rightarrow> error + AbstractLocalInfo" where
  "AbstractLocalInfo_init valueInfo isUndefined =
     (if Value valueInfo = Undefined \<and> \<not> isUndefined then Inl AssertionFailed
      else Inr \<lparr>ValueInfo = valueInfo, IsMaybeUndefined = isUndefined\<rparr>)"

definition merge_with :: "AbstractLocalInfo \<Rightarrow> AbstractLocalInfo \<Rightarrow> error + AbstractLocalInfo" where
  "merge_with a other =
     AbstractLocalInfo_init
       (AbstractValueWithSources_merge_with (ValueInfo a) (ValueInfo other))
       (IsMaybeUndefined a \<or> IsMaybeUndefined other)"

text \<open>
  The four states of the comment above the struct: the fourth one (Undefined kind,
  definitely assigned) "should never happen".
\<close>

definition local_ok :: "AbstractLocalInfo \<Rightarrow> bool" where
  "local_ok a = (if Value (ValueInfo a) = Undefined then IsMaybeUndefined a else True)"

subsection \<open>InterpreterState (absint.h, lines 135 to 187)\<close>

text \<open>
  The stack is a vector owned by the state, its top is the last element. The locals are a
  \<^verbatim>\<open>CowVector\<close>; the record is polymorphic in their representation: a handle into a
  store of shared backing vectors where sharing matters, the sequence of locals itself
  where only the contents matter.
\<close>

record 'v InterpreterState =
  m_stack :: "AbstractValueWithSources list"
  m_locals :: 'v

definition stack_size :: "'v InterpreterState \<Rightarrow> nat" where
  "stack_size s = length (m_stack s)"

definition push :: "AbstractValueWithSources \<Rightarrow> 'v InterpreterState \<Rightarrow> 'v InterpreterState" where
  "push v s = s\<lparr>m_stack := m_stack s @ [v]\<rparr>"

text \<open>
  \<^verbatim>\<open>pop\<close> copies the top of the stack, calls \<^verbatim>\<open>escapes()\<close> on it, removes the top and
  returns the value pointer. \<^verbatim>\<open>escapes\<close> is declared in \<^verbatim>\<open>absvalue.h\<close>, which is not
  among the sources: it is a parameter, an update of whatever \<open>'w\<close> the escape marks of
  the sources live in. \<^verbatim>\<open>back()\<close> of an empty vector is the error \<open>EmptyStack\<close>.
\<close>

definition pop ::
  "(AbstractValueWithSources \<Rightarrow> 'w \<Rightarrow> 'w) \<Rightarrow> 'w \<Rightarrow> 'v InterpreterState \<Rightarrow>
     error + (AbstractValue \<times> 'w \<times> 'v InterpreterState)" where
  "pop escapes w s =
     (if m_stack s = [] then Inl EmptyStack
      else let res = last (m_stack s) in
        Inr (Value res, escapes res w, s\<lparr>m_stack := butlast (m_stack s)\<rparr>))"

definition pop_no_escape ::
  "'v InterpreterState \<Rightarrow> error + (AbstractValueWithSources \<times> 'v InterpreterState)" where
  "pop_no_escape s =
     (if m_stack s = [] then Inl EmptyStack
      else let res = last (m_stack s) in
        Inr (res, s\<lparr>m_stack := butlast (m_stack s)\<rparr>))"

subsection \<open>ExceptionVars (absint.h, lines 233 to 259)\<close>

text \<open>
  \<^verbatim>\<open>Local\<close> is declared in \<^verbatim>\<open>ipycomp.h\<close>; the sources use its constructor from an
  index and its field \<^verbatim>\<open>m_index\<close>. A C++ \<^verbatim>\<open>int\<close> is a 32-bit word.
\<close>

type_synonym int32 = "32 word"

datatype Local = Local (m_index: int32)

record ExceptionVars =
  PrevExc :: Local
  PrevExcVal :: Local
  PrevTraceback :: Local
  FinallyExc :: Local
  FinallyTb :: Local
  FinallyValue :: Local

text \<open>
  The compiler behind \<^verbatim>\<open>IPythonCompiler*\<close> is an object with state \<open>'c\<close>; the record keeps,
  beside that state, the calls made through the interface, in order.
\<close>

datatype comp_call = Call_emit_define_local bool

record 'c IPythonCompiler =
  comp_state :: 'c
  comp_calls :: "comp_call list"

text \<open>
  One call of the virtual method \<^verbatim>\<open>emit_define_local\<close>; \<open>impl\<close> is the implementation
  behind the interface.
\<close>

definition emit_define_local ::
  "(bool \<Rightarrow> 'c \<Rightarrow> Local \<times> 'c) \<Rightarrow> bool \<Rightarrow> 'c IPythonCompiler \<Rightarrow> Local \<times> 'c IPythonCompiler" where
  "emit_define_local impl arg co =
     (case impl arg (comp_state co) of
        (l, c) \<Rightarrow> (l, \<lparr>comp_state = c, comp_calls = comp_calls co @ [Call_emit_define_local arg]\<rparr>))"

text \<open>
  The constructor \<^verbatim>\<open>ExceptionVars(comp, isFinally)\<close>. The three \<^verbatim>\<open>Finally\<close> members
  are default-constructed when \<open>isFinally\<close> is false; the default \<^verbatim>\<open>Local\<close> is the
  parameter \<open>dflt\<close>.
\<close>

definition ExceptionVars_init ::
  "(bool \<Rightarrow> 'c \<Rightarrow> Local \<times> 'c) \<Rightarrow> Local \<Rightarrow> 'c IPythonCompiler \<Rightarrow> bool \<Rightarrow>
     ExceptionVars \<times> 'c IPythonCompiler" where
  "ExceptionVars_init impl dflt co isFinally =
     (case emit_define_local impl False co of (prevExc, c1) \<Rightarrow>
      case emit_define_local impl False c1 of (prevExcVal, c2) \<Rightarrow>
      case emit_define_local impl False c2 of (prevTraceback, c3) \<Rightarrow>
      if isFinally then
        (case emit_define_local impl False c3 of (finallyExc, c4) \<Rightarrow>
         case emit_define_local impl False c4 of (finallyTb, c5) \<Rightarrow>
         case emit_define_local impl False c5 of (finallyValue, c6) \<Rightarrow>
           (\<lparr>PrevExc = prevExc, PrevExcVal = prevExcVal, PrevTraceback = prevTraceback,
             FinallyExc = finallyExc, FinallyTb = finallyTb, FinallyValue = finallyValue\<rparr>, c6))
      else
        (\<lparr>PrevExc = prevExc, PrevExcVal = prevExcVal, PrevTraceback = prevTraceback,
          FinallyExc = dflt, FinallyTb = dflt, FinallyValue = dflt\<rparr>, c3))"

text \<open>
  The state of the compiler after \<open>n\<close> calls of \<^verbatim>\<open>emit_define_local(false)\<close>, and the local
  that the call after them returns.
\<close>

fun state_after :: "(bool \<Rightarrow> 'c \<Rightarrow> Local \<times> 'c) \<Rightarrow> 'c \<Rightarrow> nat \<Rightarrow> 'c" where
  "state_after impl c 0 = c"
| "state_after impl c (Suc n) = snd (impl False (state_after impl c n))"

definition local_of_call :: "(bool \<Rightarrow> 'c \<Rightarrow> Local \<times> 'c) \<Rightarrow> 'c \<Rightarrow> nat \<Rightarrow> Local" where
  "local_of_call impl c n = fst (impl False (state_after impl c n))"

subsection \<open>UserModule (absint.h, lines 304 to 326)\<close>

text \<open>
  The base class \<^verbatim>\<open>Module\<close> (\<^verbatim>\<open>ipycomp.h\<close>) owns the two tables that \<^verbatim>\<open>UserModule\<close>
  searches with \<^verbatim>\<open>find\<close>. The parent is a reference to an object with the two virtual
  methods: a record of the two functions.
\<close>

record ('m, 'a) Module =
  m_tokenToMethod :: "int \<rightharpoonup> 'm"
  m_methodAddrToToken :: "'a \<rightharpoonup> int"

record ('m, 'a) IModule =
  ResolveMethod :: "int \<Rightarrow> 'm"
  ResolveMethodToken :: "'a \<Rightarrow> int"

record ('m, 'a) UserModule = "('m, 'a) Module" +
  m_parent :: "('m, 'a) IModule"

definition UserModule_ResolveMethod :: "('m, 'a) UserModule \<Rightarrow> int \<Rightarrow> 'm" where
  "UserModule_ResolveMethod um tokenId =
     (case m_tokenToMethod um tokenId of
        None \<Rightarrow> ResolveMethod (m_parent um) tokenId
      | Some res \<Rightarrow> res)"

definition UserModule_ResolveMethodToken :: "('m, 'a) UserModule \<Rightarrow> 'a \<Rightarrow> int" where
  "UserModule_ResolveMethodToken um addr =
     (case m_methodAddrToToken um addr of
        None \<Rightarrow> ResolveMethodToken (m_parent um) addr
      | Some res \<Rightarrow> res)"

subsection \<open>ILGenerator: locals (ilgen.h, lines 103 to 146)\<close>

text \<open>
  \<^verbatim>\<open>Parameter\<close> (\<^verbatim>\<open>ipycomp.h\<close>) carries the \<^verbatim>\<open>CorInfoType\<close> of a local; the array
  \<^verbatim>\<open>m_freedLocals\<close> has one free list per value of that enumeration. The fields of the
  generator that clash with fields of \<open>InterpreterState\<close> carry the suffix \<open>_gen\<close>.
\<close>

type_synonym CorInfoType = nat

type_synonym BYTE = "8 word"

record Parameter =
  m_type :: CorInfoType

record LabelInfo =
  m_location :: int32
  m_branchOffsets :: "int32 list"

definition LabelInfo_init :: LabelInfo where
  "LabelInfo_init = \<lparr>m_location = - 1, m_branchOffsets = []\<rparr>"

record ILGenerator =
  m_locals_gen :: "Parameter list"
  m_freedLocals :: "CorInfoType \<Rightarrow> Local list"
  m_il :: "BYTE list"
  m_localCount :: int32
  m_labels :: "LabelInfo list"

definition ILGenerator_init :: ILGenerator where
  "ILGenerator_init =
     \<lparr>m_locals_gen = [], m_freedLocals = (\<lambda>t. []), m_il = [], m_localCount = 0, m_labels = []\<rparr>"

definition define_local_no_cache :: "Parameter \<Rightarrow> ILGenerator \<Rightarrow> Local \<times> ILGenerator" where
  "define_local_no_cache param g =
     (Local (m_localCount g),
      g\<lparr>m_locals_gen := m_locals_gen g @ [param], m_localCount := m_localCount g + 1\<rparr>)"

definition define_local :: "Parameter \<Rightarrow> ILGenerator \<Rightarrow> Local \<times> ILGenerator" where
  "define_local param g =
     (let existing = m_freedLocals g (m_type param) in
      if length existing \<noteq> 0 then
        (last existing, g\<lparr>m_freedLocals := (m_freedLocals g)(m_type param := butlast existing)\<rparr>)
      else define_local_no_cache param g)"

text \<open>
  The loop of \<^verbatim>\<open>free_local\<close> that looks for the local in the free list of its type.
\<close>

fun is_freed :: "Local \<Rightarrow> Local list \<Rightarrow> bool" where
  "is_freed local [] = False"
| "is_freed local (x # localList) = (if m_index x = m_index local then True else is_freed local localList)"

text \<open>
  \<^verbatim>\<open>free_local\<close>. The search for a double free stands between \<^verbatim>\<open>#if _DEBUG\<close> and
  \<^verbatim>\<open>#endif\<close>: \<open>debug\<close> says whether the build defines \<^verbatim>\<open>_DEBUG\<close>. The index of the
  local is converted to \<^verbatim>\<open>size_t\<close>; an index outside \<^verbatim>\<open>m_locals\<close> is an error.
\<close>

definition free_local :: "bool \<Rightarrow> Local \<Rightarrow> ILGenerator \<Rightarrow> error + ILGenerator" where
  "free_local debug local g =
     (if sint (m_index local) < 0 \<or> nat (sint (m_index local)) \<ge> length (m_locals_gen g)
      then Inl IndexOutOfRange
      else
        let param = m_locals_gen g ! nat (sint (m_index local));
            localList = m_freedLocals g (m_type param)
        in if debug \<and> is_freed local localList then Inl AssertionFailed
           else Inr (g\<lparr>m_freedLocals := (m_freedLocals g)(m_type param := localList @ [local])\<rparr>))"

text \<open>
  The states of a generator that its constructor and the three operations on locals
  produce; every other member function leaves \<^verbatim>\<open>m_locals\<close>, \<^verbatim>\<open>m_localCount\<close> and
  \<^verbatim>\<open>m_freedLocals\<close> alone and may change the instruction bytes and the labels.
\<close>

inductive locals_reachable :: "bool \<Rightarrow> ILGenerator \<Rightarrow> bool" for debug :: bool where
  reach_init: "locals_reachable debug ILGenerator_init"
| reach_define: "locals_reachable debug g \<Longrightarrow> locals_reachable debug (snd (define_local param g))"
| reach_define_no_cache:
    "locals_reachable debug g \<Longrightarrow> locals_reachable debug (snd (define_local_no_cache param g))"
| reach_free:
    "locals_reachable debug g \<Longrightarrow> free_local debug local g = Inr g' \<Longrightarrow> locals_reachable debug g'"
| reach_emit:
    "locals_reachable debug g \<Longrightarrow> locals_reachable debug (g\<lparr>m_il := il, m_labels := labels\<rparr>)"

text \<open>No free list holds the same local index twice.\<close>

definition free_lists_distinct :: "ILGenerator \<Rightarrow> bool" where
  "free_lists_distinct g = (\<forall>t. distinct (map m_index (m_freedLocals g t)))"

text \<open>
  Two concrete generators: one local of type 0 was defined and freed once, respectively
  freed twice.
\<close>

definition gen_freed_once :: ILGenerator where
  "gen_freed_once =
     \<lparr>m_locals_gen = [\<lparr>m_type = 0\<rparr>], m_freedLocals = (\<lambda>t. [])(0 := [Local 0]), m_il = [],
      m_localCount = 1, m_labels = []\<rparr>"

definition gen_freed_twice :: ILGenerator where
  "gen_freed_twice =
     \<lparr>m_locals_gen = [\<lparr>m_type = 0\<rparr>], m_freedLocals = (\<lambda>t. [])(0 := [Local 0, Local 0]), m_il = [],
      m_localCount = 1, m_labels = []\<rparr>"

subsection \<open>Merging states at a join point (absint.cpp)\<close>

text \<open>
  The values of \<^verbatim>\<open>AbstractLocalInfo\<close> that the two constructors and \<^verbatim>\<open>merge_with\<close> produce.
\<close>

inductive reachable_local :: "AbstractLocalInfo \<Rightarrow> bool" where
  reach_default: "reachable_local AbstractLocalInfo_default"
| reach_checked: "AbstractLocalInfo_init valueInfo isUndefined = Inr a \<Longrightarrow> reachable_local a"
| reach_merged:
    "reachable_local a \<Longrightarrow> reachable_local b \<Longrightarrow> merge_with a b = Inr r \<Longrightarrow> reachable_local r"

text \<open>
  Modelled from the spec: \<^verbatim>\<open>merge_states\<close> is declared in \<^verbatim>\<open>absint.h\<close> and defined in
  \<^verbatim>\<open>absint.cpp\<close>, which is not among the sources. Section 4.3: the incoming state is merged
  element-wise with the recorded one; stacks merge positionally with the merge of section
  4.2 (a fatal error if the lengths differ), locals merge positionally with
  \<^verbatim>\<open>AbstractLocalInfo::merge_with\<close>. The result says whether the merged state differs from
  the recorded one. Here the locals are the sequence of their contents; locals of
  different counts have no positional merge and are an error as well.
\<close>

fun merge_stack ::
  "AbstractValueWithSources list \<Rightarrow> AbstractValueWithSources list \<Rightarrow>
     error + AbstractValueWithSources list" where
  "merge_stack [] [] = Inr []"
| "merge_stack (a # as) (b # bs) =
     (case merge_stack as bs of
        Inl e \<Rightarrow> Inl e
      | Inr rs \<Rightarrow> Inr (AbstractValueWithSources_merge_with a b # rs))"
| "merge_stack _ _ = Inl StackDepthMismatch"

fun merge_locals ::
  "AbstractLocalInfo list \<Rightarrow> AbstractLocalInfo list \<Rightarrow> error + AbstractLocalInfo list" where
  "merge_locals [] [] = Inr []"
| "merge_locals (a # as) (b # bs) =
     (case merge_locals as bs of
        Inl e \<Rightarrow> Inl e
      | Inr rs \<Rightarrow> (case merge_with a b of Inl e \<Rightarrow> Inl e | Inr r \<Rightarrow> Inr (r # rs)))"
| "merge_locals _ _ = Inl LocalCountMismatch"

type_synonym AbsState = "AbstractLocalInfo list InterpreterState"

definition merge_states :: "AbsState \<Rightarrow> AbsState \<Rightarrow> error + (bool \<times> AbsState)" where
  "merge_states newState mergeTo =
     (case merge_stack (m_stack mergeTo) (m_stack newState) of
        Inl e \<Rightarrow> Inl e
      | Inr stack \<Rightarrow>
          (case merge_locals (m_locals mergeTo) (m_locals newState) of
             Inl e \<Rightarrow> Inl e
           | Inr locals \<Rightarrow>
               let merged = \<lparr>m_stack = stack, m_locals = locals\<rparr>
               in Inr (merged \<noteq> mergeTo, merged)))"

text \<open>The merged state alone, without the flag.\<close>

definition merged_state :: "AbsState \<Rightarrow> AbsState \<Rightarrow> error + AbsState" where
  "merged_state newState mergeTo = map_sum id snd (merge_states newState mergeTo)"

text \<open>
  Concrete locals and states for the examples: a local assigned an Int at opcode 0, the same
  local assigned a Float at opcode 2, and two states at one offset with these locals and a
  stack of depth one.
\<close>

definition local_int :: AbstractLocalInfo where
  "local_int = \<lparr>ValueInfo = \<lparr>Value = AV_Int, Sources = {LocalSource 0 0}\<rparr>, IsMaybeUndefined = False\<rparr>"

definition local_float :: AbstractLocalInfo where
  "local_float = \<lparr>ValueInfo = \<lparr>Value = AV_Float, Sources = {LocalSource 2 0}\<rparr>, IsMaybeUndefined = False\<rparr>"

definition state_int :: AbsState where
  "state_int = \<lparr>m_stack = [\<lparr>Value = AV_Bool, Sources = {ConstSource 1 0}\<rparr>],
                 m_locals = [local_int, AbstractLocalInfo_default]\<rparr>"

definition state_float :: AbsState where
  "state_float = \<lparr>m_stack = [\<lparr>Value = AV_Bool, Sources = {ConstSource 3 0}\<rparr>],
                   m_locals = [local_float, AbstractLocalInfo_default]\<rparr>"

subsection \<open>Copy-on-write locals (cowvector.h; absint.h, lines 143 to 157)\<close>

text \<open>
  Modelled from the spec: \<^verbatim>\<open>cowvector.h\<close> is not among the sources. Section 4.1: a
  \<^verbatim>\<open>CowVector\<close> is a reference to a shared, reference-counted backing store of fixed
  length. The backing stores live in a store addressed by position; a \<^verbatim>\<open>CowVector\<close> is
  the address of its backing store. A backing store whose count is zero has been
  released: using a handle to it, or to an address outside the store, is the error
  \<open>DanglingReference\<close>.
\<close>

datatype cow_error = DanglingReference | OutOfRange

record 'a CowData =
  refs :: nat
  items :: "'a list"

type_synonym 'a cow_store = "'a CowData list"

datatype CowVector = CowVector (m_data: nat)

definition cow_live :: "CowVector \<Rightarrow> 'a cow_store \<Rightarrow> bool" where
  "cow_live v h = (m_data v < length h \<and> 0 < refs (h ! m_data v))"

text \<open>Modelled from the spec: construction allocates a backing store of size \<open>n\<close>.\<close>

definition CowVector_init :: "nat \<Rightarrow> 'a \<Rightarrow> 'a cow_store \<Rightarrow> CowVector \<times> 'a cow_store" where
  "CowVector_init n dflt h = (CowVector (length h), h @ [\<lparr>refs = 1, items = replicate n dflt\<rparr>])"

text \<open>
  Modelled from the spec: a logical copy creates a second reference to the same backing
  store.
\<close>

definition CowVector_copy :: "CowVector \<Rightarrow> 'a cow_store \<Rightarrow> cow_error + (CowVector \<times> 'a cow_store)" where
  "CowVector_copy v h =
     (if \<not> cow_live v h then Inl DanglingReference
      else Inr (v, h[m_data v := (h ! m_data v)\<lparr>refs := refs (h ! m_data v) + 1\<rparr>]))"

definition CowVector_size :: "CowVector \<Rightarrow> 'a cow_store \<Rightarrow> cow_error + nat" where
  "CowVector_size v h =
     (if \<not> cow_live v h then Inl DanglingReference else Inr (length (items (h ! m_data v))))"

definition CowVector_get :: "CowVector \<Rightarrow> nat \<Rightarrow> 'a cow_store \<Rightarrow> cow_error + 'a" where
  "CowVector_get v index h =
     (if \<not> cow_live v h then Inl DanglingReference
      else if index \<ge> length (items (h ! m_data v)) then Inl OutOfRange
      else Inr (items (h ! m_data v) ! index))"

text \<open>
  Modelled from the spec: \<^verbatim>\<open>replace(i, value)\<close> checks whether the reference count of the
  backing store is 1; if so it mutates in place, otherwise it allocates a private copy of
  the backing store, decrements the old reference and mutates the private copy.
\<close>

definition CowVector_replace ::
  "CowVector \<Rightarrow> nat \<Rightarrow> 'a \<Rightarrow> 'a cow_store \<Rightarrow> cow_error + (CowVector \<times> 'a cow_store)" where
  "CowVector_replace v index val h =
     (if \<not> cow_live v h then Inl DanglingReference
      else if index \<ge> length (items (h ! m_data v)) then Inl OutOfRange
      else
        let d = h ! m_data v in
        if refs d = 1 then Inr (v, h[m_data v := d\<lparr>items := (items d)[index := val]\<rparr>])
        else
          Inr (CowVector (length h),
               h[m_data v := d\<lparr>refs := refs d - 1\<rparr>] @ [\<lparr>refs = 1, items = (items d)[index := val]\<rparr>]))"

text \<open>
  The members of \<^verbatim>\<open>InterpreterState\<close> that delegate to the \<^verbatim>\<open>CowVector\<close>, and the copy
  of a state: the stack is copied by value, the locals by reference.
\<close>

type_synonym CowState = "CowVector InterpreterState"

definition InterpreterState_init :: "nat \<Rightarrow> 'a \<Rightarrow> 'a cow_store \<Rightarrow> CowState \<times> 'a cow_store" where
  "InterpreterState_init numLocals dflt h =
     (case CowVector_init numLocals dflt h of (v, h') \<Rightarrow> (\<lparr>m_stack = [], m_locals = v\<rparr>, h'))"

definition InterpreterState_copy :: "CowState \<Rightarrow> 'a cow_store \<Rightarrow> cow_error + (CowState \<times> 'a cow_store)" where
  "InterpreterState_copy s h =
     (case CowVector_copy (m_locals s) h of
        Inl e \<Rightarrow> Inl e
      | Inr (v, h') \<Rightarrow> Inr (\<lparr>m_stack = m_stack s, m_locals = v\<rparr>, h'))"

definition get_local :: "CowState \<Rightarrow> nat \<Rightarrow> 'a cow_store \<Rightarrow> cow_error + 'a" where
  "get_local s index h = CowVector_get (m_locals s) index h"

definition local_count :: "CowState \<Rightarrow> 'a cow_store \<Rightarrow> cow_error + nat" where
  "local_count s h = CowVector_size (m_locals s) h"

definition replace_local ::
  "nat \<Rightarrow> 'a \<Rightarrow> CowState \<Rightarrow> 'a cow_store \<Rightarrow> cow_error + (CowState \<times> 'a cow_store)" where
  "replace_local index val s h =
     (case CowVector_replace (m_locals s) index val h of
        Inl e \<Rightarrow> Inl e
      | Inr (v, h') \<Rightarrow> Inr (s\<lparr>m_locals := v\<rparr>, h'))"

text \<open>
  A concrete state with two locals, as \<open>InterpreterState_init\<close> makes it in an empty store.
\<close>

definition cow_example_state :: CowState where
  "cow_example_state = \<lparr>m_stack = [], m_locals = CowVector 0\<rparr>"

definition cow_example_store :: "AbstractLocalInfo cow_store" where
  "cow_example_store = [\<lparr>refs = 1, items = [AbstractLocalInfo_default, AbstractLocalInfo_default]\<rparr>]"

subsection \<open>ILGenerator: labels and branches (ilgen.h, lines 148 to 166, 235 to 294 and 560 to 565)\<close>

text \<open>
  \<^verbatim>\<open>Label\<close> and \<^verbatim>\<open>BranchType\<close> are declared in \<^verbatim>\<open>ipycomp.h\<close>; the sources use the
  constructor of a label from an index, its field \<^verbatim>\<open>m_index\<close> (here \<open>m_index_label\<close>) and
  the six branch types of the two \<^verbatim>\<open>switch\<close> statements. The numeric values of the CIL
  opcodes come from the runtime's \<^verbatim>\<open>openum.h\<close>: the functions that emit one take the
  encoding \<open>enc\<close> of an opcode as a byte as a parameter.
\<close>

datatype Label = Label (m_index_label: int32)

datatype BranchType =
  BranchAlways | BranchTrue | BranchFalse | BranchEqual | BranchNotEqual | BranchLeave

datatype opcode =
  CEE_LEAVE_S | CEE_BR_S | CEE_BRTRUE_S | CEE_BRFALSE_S | CEE_BEQ_S | CEE_BNE_UN_S
  | CEE_LEAVE | CEE_BR | CEE_BRTRUE | CEE_BRFALSE | CEE_BEQ | CEE_BNE_UN

fun short_form :: "BranchType \<Rightarrow> opcode" where
  "short_form BranchLeave = CEE_LEAVE_S"
| "short_form BranchAlways = CEE_BR_S"
| "short_form BranchTrue = CEE_BRTRUE_S"
| "short_form BranchFalse = CEE_BRFALSE_S"
| "short_form BranchEqual = CEE_BEQ_S"
| "short_form BranchNotEqual = CEE_BNE_UN_S"

fun long_form :: "BranchType \<Rightarrow> opcode" where
  "long_form BranchLeave = CEE_LEAVE"
| "long_form BranchAlways = CEE_BR"
| "long_form BranchTrue = CEE_BRTRUE"
| "long_form BranchFalse = CEE_BRFALSE"
| "long_form BranchEqual = CEE_BEQ"
| "long_form BranchNotEqual = CEE_BNE_UN"

text \<open>
  The four bytes that \<^verbatim>\<open>emit_int\<close> and \<^verbatim>\<open>mark_label\<close> write for an \<^verbatim>\<open>int\<close>:
  \<^verbatim>\<open>value & 0xff\<close>, \<^verbatim>\<open>(value >> 8) & 0xff\<close>, and so on; the shift of a signed \<^verbatim>\<open>int\<close> is
  arithmetic, and the conversion to \<^verbatim>\<open>BYTE\<close> keeps the low eight bits.
\<close>

definition int_byte :: "nat \<Rightarrow> int32 \<Rightarrow> BYTE" where
  "int_byte k v = ucast (signed_drop_bit (8 * k) v AND 0xFF)"

definition emit_int :: "int32 \<Rightarrow> ILGenerator \<Rightarrow> ILGenerator" where
  "emit_int v g = g\<lparr>m_il := m_il g @ [int_byte 0 v, int_byte 1 v, int_byte 2 v, int_byte 3 v]\<rparr>"

text \<open>
  \<^verbatim>\<open>define_label\<close> appends an unbound label and returns its index, the new size minus one.
\<close>

definition define_label :: "ILGenerator \<Rightarrow> Label \<times> ILGenerator" where
  "define_label g =
     (Label (of_nat (length (m_labels g @ [LabelInfo_init])) - 1),
      g\<lparr>m_labels := m_labels g @ [LabelInfo_init]\<rparr>)"

text \<open>
  An \<^verbatim>\<open>int\<close> used as the index of a vector is converted to \<^verbatim>\<open>size_t\<close>: a negative index,
  or one at or beyond the size of the vector, is outside the vector.
\<close>

definition vector_index :: "int32 \<Rightarrow> 'a list \<Rightarrow> nat option" where
  "vector_index n xs =
     (if sint n < 0 \<or> nat (sint n) \<ge> length xs then None else Some (nat (sint n)))"

definition il_write :: "BYTE list \<Rightarrow> int32 \<Rightarrow> BYTE \<Rightarrow> error + BYTE list" where
  "il_write il n b =
     (case vector_index n il of None \<Rightarrow> Inl IndexOutOfRange | Some i \<Rightarrow> Inr (il[i := b]))"

text \<open>
  The loop of \<^verbatim>\<open>mark_label\<close> over the recorded branch sites of the label.
\<close>

fun patch_branches :: "int32 \<Rightarrow> int32 list \<Rightarrow> BYTE list \<Rightarrow> error + BYTE list" where
  "patch_branches location [] il = Inr il"
| "patch_branches location (from' # branchOffsets) il =
     (let offset = location - (from' + 4) in
      (case il_write il from' (int_byte 0 offset) of Inl e \<Rightarrow> Inl e | Inr il1 \<Rightarrow>
      (case il_write il1 (from' + 1) (int_byte 1 offset) of Inl e \<Rightarrow> Inl e | Inr il2 \<Rightarrow>
      (case il_write il2 (from' + 2) (int_byte 2 offset) of Inl e \<Rightarrow> Inl e | Inr il3 \<Rightarrow>
      (case il_write il3 (from' + 3) (int_byte 3 offset) of Inl e \<Rightarrow> Inl e | Inr il4 \<Rightarrow>
        patch_branches location branchOffsets il4)))))"

text \<open>
  \<^verbatim>\<open>mark_label\<close>. Its check that the label is unbound is an \<^verbatim>\<open>_ASSERTE\<close>, the assertion of
  the debug runtime, which is compiled only in a build that defines \<^verbatim>\<open>_DEBUG\<close>: \<open>debug\<close> is
  that flag, as in \<^verbatim>\<open>free_local\<close>. In a build without it the statement is empty, and the
  function gives a bound label the current size of the stream as its new location and
  patches its recorded sites once more.
\<close>

definition mark_label :: "bool \<Rightarrow> Label \<Rightarrow> ILGenerator \<Rightarrow> error + ILGenerator" where
  "mark_label debug label g =
     (case vector_index (m_index_label label) (m_labels g) of
        None \<Rightarrow> Inl IndexOutOfRange
      | Some i \<Rightarrow>
          let info = m_labels g ! i in
          if debug \<and> m_location info \<noteq> - 1 then Inl AssertionFailed
          else
            let location = of_nat (length (m_il g)) in
            (case patch_branches location (m_branchOffsets info) (m_il g) of
               Inl e \<Rightarrow> Inl e
             | Inr il \<Rightarrow>
                 Inr (g\<lparr>m_il := il, m_labels := (m_labels g)[i := info\<lparr>m_location := location\<rparr>]\<rparr>)))"

text \<open>
  \<^verbatim>\<open>branch(BranchType, int offset)\<close>: the short form when \<open>offset - 2\<close> lies between -127
  and 128, with the byte \<^verbatim>\<open>(char)offset - 2\<close>; otherwise the long form with
  \<^verbatim>\<open>emit_int(offset - 5)\<close>.
\<close>

definition branch_offset :: "(opcode \<Rightarrow> BYTE) \<Rightarrow> BranchType \<Rightarrow> int32 \<Rightarrow> ILGenerator \<Rightarrow> ILGenerator" where
  "branch_offset enc branchType offset g =
     (if word_sle (offset - 2) 128 \<and> word_sle (- 127) (offset - 2) then
        g\<lparr>m_il := m_il g @ [enc (short_form branchType), ucast offset - 2]\<rparr>
      else emit_int (offset - 5) (g\<lparr>m_il := m_il g @ [enc (long_form branchType)]\<rparr>))"

text \<open>
  \<^verbatim>\<open>branch(BranchType, Label)\<close>: to an unbound label it records the position after the
  opcode byte as a branch site and emits the offset \<^verbatim>\<open>0xFFFF\<close>; to a bound label it emits
  the location minus the current size, converted to \<^verbatim>\<open>int\<close>.
\<close>

definition branch :: "(opcode \<Rightarrow> BYTE) \<Rightarrow> BranchType \<Rightarrow> Label \<Rightarrow> ILGenerator \<Rightarrow> error + ILGenerator" where
  "branch enc branchType label g =
     (case vector_index (m_index_label label) (m_labels g) of
        None \<Rightarrow> Inl IndexOutOfRange
      | Some i \<Rightarrow>
          let info = m_labels g ! i in
          if m_location info = - 1 then
            Inr (branch_offset enc branchType 0xFFFF
                   (g\<lparr>m_labels := (m_labels g)
                        [i := info\<lparr>m_branchOffsets :=
                                     m_branchOffsets info @ [of_nat (length (m_il g)) + 1]\<rparr>]\<rparr>))
          else
            Inr (branch_offset enc branchType (m_location info - of_nat (length (m_il g))) g))"












inductive labels_reachable :: "(opcode \<Rightarrow> BYTE) \<Rightarrow> bool \<Rightarrow> ILGenerator \<Rightarrow> Label list \<Rightarrow> bool"
  for enc :: "opcode \<Rightarrow> BYTE" and debug :: bool where
  lreach_init: "labels_reachable enc debug ILGenerator_init []"
| lreach_define:
    "labels_reachable enc debug g ls \<Longrightarrow>
     labels_reachable enc debug (snd (define_label g)) (ls @ [fst (define_label g)])"
| lreach_branch:
    "labels_reachable enc debug g ls \<Longrightarrow> branch enc branchType label g = Inr g' \<Longrightarrow>
     labels_reachable enc debug g' ls"
| lreach_mark:
    "labels_reachable enc debug g ls \<Longrightarrow> mark_label debug label g = Inr g' \<Longrightarrow>
     labels_reachable enc debug g' ls"
| lreach_emit:
    "labels_reachable enc debug g ls \<Longrightarrow> labels_reachable enc debug (g\<lparr>m_il := m_il g @ bytes\<rparr>) ls"
| lreach_locals:
    "labels_reachable enc debug g ls \<Longrightarrow>
     labels_reachable enc debug (g\<lparr>m_locals_gen := ps, m_freedLocals := fl, m_localCount := n\<rparr>) ls"

subsection \<open>The fixed-point analysis (absint.cpp)\<close>

text \<open>
  Modelled from the spec: \<^verbatim>\<open>update_start_state\<close> is declared in \<^verbatim>\<open>absint.h\<close> and defined
  in \<^verbatim>\<open>absint.cpp\<close>, which is not among the sources. Section 4.3: the incoming state is
  merged with any previously recorded state at that offset; the offset is (re-)enqueued if
  the merged result differs from the previously recorded state, and not if it is identical.
  An offset with no recorded state records the incoming state, which is a change. The table
  is \<^verbatim>\<open>m_startStates\<close> of \<^verbatim>\<open>absint.h\<close>.
\<close>

type_synonym start_states = "nat \<rightharpoonup> AbsState"

definition update_start_state ::
  "AbsState \<Rightarrow> nat \<Rightarrow> start_states \<Rightarrow> error + (bool \<times> start_states)" where
  "update_start_state newState index m_startStates =
     (case m_startStates index of
        None \<Rightarrow> Inr (True, m_startStates(index \<mapsto> newState))
      | Some initialState \<Rightarrow>
          (case merge_states newState initialState of
             Inl e \<Rightarrow> Inl e
           | Inr (changed, merged) \<Rightarrow> Inr (changed, m_startStates(index \<mapsto> merged))))"

text \<open>
  Modelled from the spec (section 4.4): the state of each successor is merged into that
  successor's recorded state, and the successor is enqueued if its recorded state changed.
\<close>

fun propagate ::
  "(nat \<times> AbsState) list \<Rightarrow> start_states \<Rightarrow> nat list \<Rightarrow> error + (start_states \<times> nat list)" where
  "propagate [] m_startStates queue = Inr (m_startStates, queue)"
| "propagate ((index, newState) # successors) m_startStates queue =
     (case update_start_state newState index m_startStates of
        Inl e \<Rightarrow> Inl e
      | Inr (changed, states) \<Rightarrow>
          propagate successors states (if changed then queue @ [index] else queue))"

text \<open>
  Modelled from the spec (section 4.4): one round of the worklist algorithm. The offset at
  the front of the worklist is popped, its instruction is decoded and its transfer function
  is applied to a copy of the recorded state, which gives one state per successor. The
  transfer functions of the opcodes are not described by the specification: \<open>transfer\<close> is
  a parameter, from the instruction, its offset and the state before it to the successors
  with their states, or to a failure of the analysis. An offset past the end of the stream
  has no instruction and no successor.
\<close>

definition interpret_step ::
  "'i list \<Rightarrow> ('i \<Rightarrow> nat \<Rightarrow> AbsState \<Rightarrow> error + (nat \<times> AbsState) list) \<Rightarrow>
     start_states \<Rightarrow> nat \<Rightarrow> nat list \<Rightarrow> error + (start_states \<times> nat list)" where
  "interpret_step code transfer m_startStates cur queue =
     (case m_startStates cur of
        None \<Rightarrow> Inl NoStartState
      | Some lastState \<Rightarrow>
          if cur < length code then
            (case transfer (code ! cur) cur lastState of
               Inl e \<Rightarrow> Inl e
             | Inr successors \<Rightarrow> propagate successors m_startStates queue)
          else Inr (m_startStates, queue))"

text \<open>
  Modelled from the spec (section 4.4): the worklist is processed until it is empty. The
  loop has fuel: \<open>None\<close> says that the fuel ran out before the worklist was empty,
  \<open>Some (Inl e)\<close> that the analysis failed, \<open>Some (Inr states)\<close> that it reached a fixed
  point with the table \<open>states\<close>.
\<close>

fun interpret_loop ::
  "nat \<Rightarrow> 'i list \<Rightarrow> ('i \<Rightarrow> nat \<Rightarrow> AbsState \<Rightarrow> error + (nat \<times> AbsState) list) \<Rightarrow>
     start_states \<Rightarrow> nat list \<Rightarrow> (error + start_states) option" where
  "interpret_loop fuel code transfer m_startStates [] = Some (Inr m_startStates)"
| "interpret_loop 0 code transfer m_startStates (cur # queue) = None"
| "interpret_loop (Suc fuel) code transfer m_startStates (cur # queue) =
     (case interpret_step code transfer m_startStates cur queue of
        Inl e \<Rightarrow> Some (Inl e)
      | Inr (states, queue') \<Rightarrow> interpret_loop fuel code transfer states queue')"

text \<open>
  Modelled from the spec (section 4.4): \<^verbatim>\<open>AbstractInterpreter::interpret\<close> starts from the
  state at offset 0, with the worklist holding just offset 0.
\<close>

definition AbstractInterpreter_interpret ::
  "nat \<Rightarrow> 'i list \<Rightarrow> ('i \<Rightarrow> nat \<Rightarrow> AbsState \<Rightarrow> error + (nat \<times> AbsState) list) \<Rightarrow>
     AbsState \<Rightarrow> (error + start_states) option" where
  "AbstractInterpreter_interpret fuel code transfer startState =
     interpret_loop fuel code transfer [0 \<mapsto> startState] [0]"

text \<open>
  A well-formed instruction stream. A state is in order when the sources of its values are
  tags of the function under analysis (a set \<open>U\<close>) and its locals are outside the forbidden
  fourth state. From a state in order, the transfer function of every instruction of the
  stream produces states in order, at successors that are offsets of the stream or its
  end.
\<close>

definition sources_in :: "AbstractSource set \<Rightarrow> AbsState \<Rightarrow> bool" where
  "sources_in U s =
     (list_all (\<lambda>v. Sources v \<subseteq> U) (m_stack s) \<and>
      list_all (\<lambda>l. Sources (ValueInfo l) \<subseteq> U) (m_locals s))"

definition state_ok :: "AbstractSource set \<Rightarrow> AbsState \<Rightarrow> bool" where
  "state_ok U s = (sources_in U s \<and> list_all local_ok (m_locals s))"

definition well_formed_stream ::
  "AbstractSource set \<Rightarrow> 'i list \<Rightarrow> ('i \<Rightarrow> nat \<Rightarrow> AbsState \<Rightarrow> error + (nat \<times> AbsState) list) \<Rightarrow> bool" where
  "well_formed_stream U code transfer =
     (\<forall>cur s successors.
        cur < length code \<and> state_ok U s \<and> transfer (code ! cur) cur s = Inr successors \<longrightarrow>
          list_all (\<lambda>(index, s'). index \<le> length code \<and> state_ok U s') successors)"

text \<open>
  A fixed point (glossary of the specification: re-applying the analysis produces no further
  change): merging the state \<open>s'\<close> into the recorded state \<open>t\<close> succeeds and reports no
  change; an offset is stable when its instruction applies to its recorded state and every
  successor state is absorbed by the state recorded at the successor.
\<close>

definition absorbed :: "AbsState \<Rightarrow> AbsState \<Rightarrow> bool" where
  "absorbed s' t = (merge_states s' t = Inr (False, t))"

definition stable_at ::
  "'i list \<Rightarrow> ('i \<Rightarrow> nat \<Rightarrow> AbsState \<Rightarrow> error + (nat \<times> AbsState) list) \<Rightarrow>
     start_states \<Rightarrow> nat \<Rightarrow> bool" where
  "stable_at code transfer states cur =
     (case states cur of
        None \<Rightarrow> True
      | Some s \<Rightarrow>
          if cur < length code then
            (case transfer (code ! cur) cur s of
               Inl e \<Rightarrow> False
             | Inr successors \<Rightarrow>
                 list_all (\<lambda>(index, s'). case states index of None \<Rightarrow> False | Some t \<Rightarrow> absorbed s' t)
                   successors)
          else True)"

definition fixed_point ::
  "'i list \<Rightarrow> ('i \<Rightarrow> nat \<Rightarrow> AbsState \<Rightarrow> error + (nat \<times> AbsState) list) \<Rightarrow>
     start_states \<Rightarrow> bool" where
  "fixed_point code transfer states = (\<forall>cur. stable_at code transfer states cur)"

text \<open>
  The height that is left above a value, a local and a state in the lattice of section 4.2:
  the kinds have height two (Undefined, a specific kind, Object), the sources can grow up to
  \<open>U\<close>, the flag of a local can go from false to true.
\<close>

fun kind_rank :: "AbstractValue \<Rightarrow> nat" where
  "kind_rank Undefined = 0"
| "kind_rank AV_Object = 2"
| "kind_rank _ = 1"

definition value_room :: "AbstractSource set \<Rightarrow> AbstractValueWithSources \<Rightarrow> nat" where
  "value_room U v = (2 - kind_rank (Value v)) + card (U - Sources v)"

definition local_room :: "AbstractSource set \<Rightarrow> AbstractLocalInfo \<Rightarrow> nat" where
  "local_room U l = value_room U (ValueInfo l) + (if IsMaybeUndefined l then 0 else 1)"

definition state_room :: "AbstractSource set \<Rightarrow> AbsState \<Rightarrow> nat" where
  "state_room U s =
     sum_list (map (value_room U) (m_stack s)) + sum_list (map (local_room U) (m_locals s))"

text \<open>
  The two measures of a table over the offsets up to \<open>n\<close>: how many have no recorded
  state, and the room left above the recorded states.
\<close>

definition unrecorded :: "nat \<Rightarrow> start_states \<Rightarrow> nat" where
  "unrecorded n states = card {index. index \<le> n \<and> states index = None}"

definition table_room :: "AbstractSource set \<Rightarrow> nat \<Rightarrow> start_states \<Rightarrow> nat" where
  "table_room U n states =
     (\<Sum>index \<le> n. case states index of None \<Rightarrow> 0 | Some s \<Rightarrow> state_room U s)"

definition table_less :: "AbstractSource set \<Rightarrow> nat \<Rightarrow> start_states \<Rightarrow> start_states \<Rightarrow> bool" where
  "table_less U n states' states =
     (unrecorded n states' < unrecorded n states \<or>
      (unrecorded n states' = unrecorded n states \<and> table_room U n states' < table_room U n states))"

text \<open>Every recorded offset is at most \<open>n\<close>, and every recorded state is in order.\<close>

definition table_ok :: "AbstractSource set \<Rightarrow> nat \<Rightarrow> start_states \<Rightarrow> bool" where
  "table_ok U n states =
     (\<forall>index s. states index = Some s \<longrightarrow> index \<le> n \<and> state_ok U s)"

text \<open>
  An instance for the examples: three instructions with their transfer functions, and a
  stream that loops forever at run time. \<^verbatim>\<open>LOAD_CONST\<close> pushes an Int whose source is the
  constant, \<^verbatim>\<open>STORE_FAST\<close> pops the top of the stack into a local, which is then definitely
  assigned, and \<^verbatim>\<open>JUMP_ABSOLUTE\<close> continues at its target.
\<close>

datatype toy_instr = LOAD_CONST nat | STORE_FAST nat | JUMP_ABSOLUTE nat

fun toy_transfer :: "toy_instr \<Rightarrow> nat \<Rightarrow> AbsState \<Rightarrow> error + (nat \<times> AbsState) list" where
  "toy_transfer (LOAD_CONST k) cur s =
     Inr [(cur + 1, push \<lparr>Value = AV_Int, Sources = {ConstSource cur k}\<rparr> s)]"
| "toy_transfer (STORE_FAST i) cur s =
     (case pop_no_escape s of
        Inl e \<Rightarrow> Inl e
      | Inr (v, s') \<Rightarrow>
          if i < length (m_locals s') then
            (case AbstractLocalInfo_init v False of
               Inl e \<Rightarrow> Inl e
             | Inr l \<Rightarrow> Inr [(cur + 1, s'\<lparr>m_locals := (m_locals s')[i := l]\<rparr>)])
          else Inl IndexOutOfRange)"
| "toy_transfer (JUMP_ABSOLUTE target) cur s = Inr [(target, s)]"

definition toy_code :: "toy_instr list" where
  "toy_code = [LOAD_CONST 0, STORE_FAST 0, JUMP_ABSOLUTE 0]"

definition toy_start :: AbsState where
  "toy_start = \<lparr>m_stack = [], m_locals = [AbstractLocalInfo_default]\<rparr>"

text \<open>
  For the proof that the result is a fixed point: a table grows when every recorded state
  is replaced by one that absorbs whatever the old one absorbed; the invariant of the loop
  says that every offset outside the worklist is stable.
\<close>

definition grows :: "start_states \<Rightarrow> start_states \<Rightarrow> bool" where
  "grows states states' =
     (\<forall>index t. states index = Some t \<longrightarrow>
        (\<exists>t'. states' index = Some t' \<and> (\<forall>x. absorbed x t \<longrightarrow> absorbed x t')))"

definition loop_inv ::
  "'i list \<Rightarrow> ('i \<Rightarrow> nat \<Rightarrow> AbsState \<Rightarrow> error + (nat \<times> AbsState) list) \<Rightarrow>
     start_states \<Rightarrow> nat list \<Rightarrow> bool" where
  "loop_inv code transfer states queue =
     (\<forall>cur. cur \<notin> set queue \<longrightarrow> stable_at code transfer states cur)"

section \<open>Theorems\<close>

subsection \<open>Method resolution\<close>

text \<open>
  C7: for every token, \<^verbatim>\<open>UserModule::ResolveMethod\<close> returns the module's own mapping
  when one is registered and otherwise exactly what the parent's \<^verbatim>\<open>ResolveMethod\<close>
  returns; the same holds of \<^verbatim>\<open>ResolveMethodToken\<close> over addresses.
\<close>

theorem UserModule_resolve_else_parent:
  "(\<forall>m. m_tokenToMethod um t = Some m \<longrightarrow> UserModule_ResolveMethod um t = m) \<and>
   (m_tokenToMethod um t = None \<longrightarrow>
      UserModule_ResolveMethod um t = ResolveMethod (m_parent um) t) \<and>
   (\<forall>k. m_methodAddrToToken um a = Some k \<longrightarrow> UserModule_ResolveMethodToken um a = k) \<and>
   (m_methodAddrToToken um a = None \<longrightarrow>
      UserModule_ResolveMethodToken um a = ResolveMethodToken (m_parent um) a)"
  by (simp add: UserModule_ResolveMethod_def UserModule_ResolveMethodToken_def)

theorem UserModule_resolve_else_parent_witness:
  "UserModule_ResolveMethod
     \<lparr>m_tokenToMethod = [1 \<mapsto> ''own''], m_methodAddrToToken = [10 \<mapsto> (1::int)],
      m_parent = \<lparr>ResolveMethod = (\<lambda>t. ''parent''), ResolveMethodToken = (\<lambda>a::nat. 7)\<rparr>\<rparr> 1 = ''own'' \<and>
   UserModule_ResolveMethod
     \<lparr>m_tokenToMethod = [1 \<mapsto> ''own''], m_methodAddrToToken = [10 \<mapsto> (1::int)],
      m_parent = \<lparr>ResolveMethod = (\<lambda>t. ''parent''), ResolveMethodToken = (\<lambda>a::nat. 7)\<rparr>\<rparr> 2 = ''parent'' \<and>
   UserModule_ResolveMethodToken
     \<lparr>m_tokenToMethod = [1 \<mapsto> ''own''], m_methodAddrToToken = [10 \<mapsto> (1::int)],
      m_parent = \<lparr>ResolveMethod = (\<lambda>t. ''parent''), ResolveMethodToken = (\<lambda>a::nat. 7)\<rparr>\<rparr> 10 = 1 \<and>
   UserModule_ResolveMethodToken
     \<lparr>m_tokenToMethod = [1 \<mapsto> ''own''], m_methodAddrToToken = [10 \<mapsto> (1::int)],
      m_parent = \<lparr>ResolveMethod = (\<lambda>t. ''parent''), ResolveMethodToken = (\<lambda>a::nat. 7)\<rparr>\<rparr> 11 = 7"
  using
    UserModule_resolve_else_parent
      [of "\<lparr>m_tokenToMethod = [1 \<mapsto> ''own''], m_methodAddrToToken = [10 \<mapsto> (1::int)],
            m_parent = \<lparr>ResolveMethod = (\<lambda>t. ''parent''), ResolveMethodToken = (\<lambda>a::nat. 7)\<rparr>\<rparr>" 1 10]
    UserModule_resolve_else_parent
      [of "\<lparr>m_tokenToMethod = [1 \<mapsto> ''own''], m_methodAddrToToken = [10 \<mapsto> (1::int)],
            m_parent = \<lparr>ResolveMethod = (\<lambda>t. ''parent''), ResolveMethodToken = (\<lambda>a::nat. 7)\<rparr>\<rparr>" 2 11]
  by simp

subsection \<open>Saved exception state\<close>

lemma comp_calls_emit_define_local:
  "comp_calls (snd (emit_define_local impl arg co)) = comp_calls co @ [Call_emit_define_local arg]"
  by (simp add: emit_define_local_def split: prod.splits)

text \<open>
  C8: the constructor \<^verbatim>\<open>ExceptionVars(comp, isFinally)\<close> calls \<^verbatim>\<open>emit_define_local\<close>
  of the compiler exactly three times when \<open>isFinally\<close> is false and exactly six times
  when it is true, each time with the argument \<open>false\<close>, and makes no other call. The
  locals returned go, in the order of the calls, to \<^verbatim>\<open>PrevExc\<close>, \<^verbatim>\<open>PrevExcVal\<close> and
  \<^verbatim>\<open>PrevTraceback\<close>, and for a finally block to \<^verbatim>\<open>FinallyExc\<close>, \<^verbatim>\<open>FinallyTb\<close> and
  \<^verbatim>\<open>FinallyValue\<close>, which otherwise stay default-constructed.
\<close>

theorem ExceptionVars_init_calls:
  "comp_calls (snd (ExceptionVars_init impl dflt co isFinally)) =
     comp_calls co @ replicate (if isFinally then 6 else 3) (Call_emit_define_local False) \<and>
   comp_state (snd (ExceptionVars_init impl dflt co isFinally)) =
     state_after impl (comp_state co) (if isFinally then 6 else 3) \<and>
   fst (ExceptionVars_init impl dflt co isFinally) =
     \<lparr>PrevExc = local_of_call impl (comp_state co) 0,
      PrevExcVal = local_of_call impl (comp_state co) 1,
      PrevTraceback = local_of_call impl (comp_state co) 2,
      FinallyExc = (if isFinally then local_of_call impl (comp_state co) 3 else dflt),
      FinallyTb = (if isFinally then local_of_call impl (comp_state co) 4 else dflt),
      FinallyValue = (if isFinally then local_of_call impl (comp_state co) 5 else dflt)\<rparr>"
proof -
  have three: "replicate 3 x = [x, x, x]" and six: "replicate 6 x = [x, x, x, x, x, x]" for x :: comp_call
    by (simp_all add: numeral_eq_Suc)
  have n: "(1::nat) = Suc 0" "(2::nat) = Suc (Suc 0)" "(3::nat) = Suc (Suc (Suc 0))"
    "(4::nat) = Suc (Suc (Suc (Suc 0)))" "(5::nat) = Suc (Suc (Suc (Suc (Suc 0))))"
    "(6::nat) = Suc (Suc (Suc (Suc (Suc (Suc 0)))))"
    by simp_all
  show ?thesis
    unfolding n
    by (auto split: prod.splits
        simp: ExceptionVars_init_def emit_define_local_def local_of_call_def three [unfolded n]
          six [unfolded n])
qed

theorem ExceptionVars_init_calls_example:
  "ExceptionVars_init (\<lambda>cache n. (Local (of_nat n), Suc n)) (Local (- 1))
     \<lparr>comp_state = 7, comp_calls = []\<rparr> False =
   (\<lparr>PrevExc = Local 7, PrevExcVal = Local 8, PrevTraceback = Local 9,
     FinallyExc = Local (- 1), FinallyTb = Local (- 1), FinallyValue = Local (- 1)\<rparr>,
    \<lparr>comp_state = 10,
     comp_calls = [Call_emit_define_local False, Call_emit_define_local False,
                   Call_emit_define_local False]\<rparr>)"
  by (simp add: ExceptionVars_init_def emit_define_local_def)

subsection \<open>Popping the abstract stack\<close>

text \<open>
  C9: on a state with a non-empty stack, \<^verbatim>\<open>pop\<close> and \<^verbatim>\<open>pop_no_escape\<close> both remove
  exactly the top element: the old stack is the new stack followed by the popped element,
  the size decreases by one and the locals are unchanged. \<^verbatim>\<open>pop\<close> calls \<^verbatim>\<open>escapes\<close> once,
  on the popped element, and returns its value; \<^verbatim>\<open>pop_no_escape\<close> returns the whole
  element and has no access to the escape marks.
\<close>

theorem pop_removes_top:
  assumes "m_stack s \<noteq> []"
  shows "\<exists>v w' s' r t'.
           pop escapes w s = Inr (v, w', s') \<and> pop_no_escape s = Inr (r, t') \<and>
           r = last (m_stack s) \<and>
           m_stack s = m_stack s' @ [r] \<and> m_stack s = m_stack t' @ [r] \<and>
           stack_size s' + 1 = stack_size s \<and> stack_size t' + 1 = stack_size s \<and>
           m_locals s' = m_locals s \<and> m_locals t' = m_locals s \<and>
           (\<forall>i < stack_size s'. m_stack s' ! i = m_stack s ! i \<and> m_stack t' ! i = m_stack s ! i) \<and>
           v = Value r \<and> w' = escapes r w"
proof -
  from assms have len: "length (butlast (m_stack s)) + 1 = length (m_stack s)"
    by (cases "m_stack s" rule: rev_cases) simp_all
  from assms have app: "m_stack s = butlast (m_stack s) @ [last (m_stack s)]"
    by simp
  have nth: "\<forall>i < length (butlast (m_stack s)). butlast (m_stack s) ! i = m_stack s ! i"
    by (simp add: nth_butlast)
  show ?thesis
    using assms len app nth
    by (simp add: pop_def pop_no_escape_def stack_size_def Let_def)
qed

theorem pop_removes_top_witness:
  "m_stack \<lparr>m_stack = [\<lparr>Value = AV_Int, Sources = {}\<rparr>, \<lparr>Value = AV_Float, Sources = {ConstSource 0 1}\<rparr>],
            m_locals = [AbstractLocalInfo_default]\<rparr> \<noteq> [] \<and>
   pop (\<lambda>v w. Sources v \<union> w) {}
     \<lparr>m_stack = [\<lparr>Value = AV_Int, Sources = {}\<rparr>, \<lparr>Value = AV_Float, Sources = {ConstSource 0 1}\<rparr>],
      m_locals = [AbstractLocalInfo_default]\<rparr> =
     Inr (AV_Float, {ConstSource 0 1},
          \<lparr>m_stack = [\<lparr>Value = AV_Int, Sources = {}\<rparr>], m_locals = [AbstractLocalInfo_default]\<rparr>) \<and>
   pop_no_escape
     \<lparr>m_stack = [\<lparr>Value = AV_Int, Sources = {}\<rparr>, \<lparr>Value = AV_Float, Sources = {ConstSource 0 1}\<rparr>],
      m_locals = [AbstractLocalInfo_default]\<rparr> =
     Inr (\<lparr>Value = AV_Float, Sources = {ConstSource 0 1}\<rparr>,
          \<lparr>m_stack = [\<lparr>Value = AV_Int, Sources = {}\<rparr>], m_locals = [AbstractLocalInfo_default]\<rparr>)"
proof -
  let ?s = "\<lparr>m_stack = [\<lparr>Value = AV_Int, Sources = {}\<rparr>, \<lparr>Value = AV_Float, Sources = {ConstSource 0 1}\<rparr>],
             m_locals = [AbstractLocalInfo_default]\<rparr>"
  have ne: "m_stack ?s \<noteq> []" by simp
  from pop_removes_top [OF ne, of "\<lambda>v w. Sources v \<union> w" "{}"]
  obtain v w' s' r t' where
    p: "pop (\<lambda>v w. Sources v \<union> w) {} ?s = Inr (v, w', s')" and
    q: "pop_no_escape ?s = Inr (r, t')" and
    r: "r = last (m_stack ?s)" and
    st: "m_stack ?s = m_stack s' @ [r]" "m_stack ?s = m_stack t' @ [r]" and
    lo: "m_locals s' = m_locals ?s" "m_locals t' = m_locals ?s" and
    vw: "v = Value r" "w' = (\<lambda>v w. Sources v \<union> w) r {}"
    by blast
  from r have r': "r = \<lparr>Value = AV_Float, Sources = {ConstSource 0 1}\<rparr>" by simp
  from st r' have "m_stack s' = [\<lparr>Value = AV_Int, Sources = {}\<rparr>]" "m_stack t' = [\<lparr>Value = AV_Int, Sources = {}\<rparr>]"
    by simp_all
  with lo have "s' = \<lparr>m_stack = [\<lparr>Value = AV_Int, Sources = {}\<rparr>], m_locals = [AbstractLocalInfo_default]\<rparr>"
    "t' = \<lparr>m_stack = [\<lparr>Value = AV_Int, Sources = {}\<rparr>], m_locals = [AbstractLocalInfo_default]\<rparr>"
    by (cases s'; simp)+
  with p q r' vw ne show ?thesis by simp
qed

subsection \<open>Releasing locals of the generator\<close>

lemma is_freed_iff: "is_freed local xs \<longleftrightarrow> m_index local \<in> set (map m_index xs)"
  by (induction xs) auto

lemma free_local_debug_double:
  assumes "0 \<le> sint (m_index local)" "nat (sint (m_index local)) < length (m_locals_gen g)"
    and "m_index local \<in> set (map m_index (m_freedLocals g (m_type (m_locals_gen g ! nat (sint (m_index local))))))"
  shows "free_local True local g = Inl AssertionFailed"
  using assms by (simp add: free_local_def is_freed_iff Let_def)

lemma distinct_butlast_map: "distinct (map f xs) \<Longrightarrow> distinct (map f (butlast xs))"
  by (simp add: distinct_butlast map_butlast)

lemma free_lists_distinct_define_local:
  "free_lists_distinct g \<Longrightarrow> free_lists_distinct (snd (define_local param g))"
  by (auto simp: free_lists_distinct_def define_local_def define_local_no_cache_def Let_def
      distinct_butlast_map)

lemma free_lists_distinct_free_local:
  "free_lists_distinct g \<Longrightarrow> free_local True local g = Inr g' \<Longrightarrow> free_lists_distinct g'"
  by (auto simp: free_lists_distinct_def free_local_def Let_def is_freed_iff split: if_splits)

lemma reachable_distinct: "locals_reachable True g \<Longrightarrow> free_lists_distinct g"
proof (induction rule: locals_reachable.induct)
  case reach_init
  then show ?case by (simp add: free_lists_distinct_def ILGenerator_init_def)
next
  case (reach_define g param)
  then show ?case by (simp add: free_lists_distinct_define_local)
next
  case (reach_define_no_cache g param)
  then show ?case by (simp add: free_lists_distinct_def define_local_no_cache_def)
next
  case (reach_free g local g')
  then show ?case by (blast intro: free_lists_distinct_free_local)
next
  case (reach_emit g il labels)
  then show ?case by (simp add: free_lists_distinct_def)
qed

text \<open>
  C6, in the form that holds of the code: in a build that defines \<^verbatim>\<open>_DEBUG\<close>, \<^verbatim>\<open>free_local\<close> of a local that
  is already on the free list of its type fails the assertion, and no free list of a
  reachable generator holds the same local index twice. In a build without \<^verbatim>\<open>_DEBUG\<close>
  the search is compiled out: the same call succeeds and appends the local once more.
\<close>

theorem free_local_double_free_debug:
  "(0 \<le> sint (m_index local) \<and> nat (sint (m_index local)) < length (m_locals_gen g) \<and>
    is_freed local (m_freedLocals g (m_type (m_locals_gen g ! nat (sint (m_index local))))) \<longrightarrow>
      free_local True local g = Inl AssertionFailed \<and>
      free_local False local g =
        Inr (g\<lparr>m_freedLocals := (m_freedLocals g)
               (m_type (m_locals_gen g ! nat (sint (m_index local))) :=
                  m_freedLocals g (m_type (m_locals_gen g ! nat (sint (m_index local)))) @ [local])\<rparr>)) \<and>
   (locals_reachable True g \<longrightarrow> free_lists_distinct g)"
  by (auto simp: free_local_def Let_def reachable_distinct)

lemma gen_freed_once_run:
  "free_local d (Local 0) (snd (define_local_no_cache \<lparr>m_type = 0\<rparr> ILGenerator_init)) = Inr gen_freed_once"
  by (simp add: free_local_def define_local_no_cache_def ILGenerator_init_def gen_freed_once_def
      Let_def)

lemma gen_freed_once_reachable: "locals_reachable d gen_freed_once"
  using reach_free [OF reach_define_no_cache [OF reach_init] gen_freed_once_run] .

text \<open>
  C6 as stated fails in a build without \<^verbatim>\<open>_DEBUG\<close>: the second release of local 0 is
  accepted, and the free list of type 0 then holds index 0 twice.
\<close>

theorem free_local_double_free_counterexample:
  "locals_reachable False gen_freed_once \<and>
   is_freed (Local 0) (m_freedLocals gen_freed_once (m_type (m_locals_gen gen_freed_once ! nat (sint (m_index (Local 0)))))) \<and>
   free_local False (Local 0) gen_freed_once = Inr gen_freed_twice \<and>
   free_local False (Local 0) gen_freed_once \<noteq> Inl AssertionFailed \<and>
   locals_reachable False gen_freed_twice \<and>
   \<not> free_lists_distinct gen_freed_twice"
proof -
  have f: "free_local False (Local 0) gen_freed_once = Inr gen_freed_twice"
    by (simp add: free_local_def gen_freed_once_def gen_freed_twice_def Let_def)
  have r: "locals_reachable False gen_freed_twice"
    using reach_free [OF gen_freed_once_reachable f] .
  have d: "\<not> free_lists_distinct gen_freed_twice"
    by (auto simp: free_lists_distinct_def gen_freed_twice_def intro: exI [of _ 0])
  have i: "is_freed (Local 0) (m_freedLocals gen_freed_once (m_type (m_locals_gen gen_freed_once ! nat (sint (m_index (Local 0))))))"
    by (simp add: gen_freed_once_def)
  from f r d i gen_freed_once_reachable show ?thesis by simp
qed

theorem free_local_double_free_debug_witness:
  "0 \<le> sint (m_index (Local 0)) \<and> nat (sint (m_index (Local 0))) < length (m_locals_gen gen_freed_once) \<and>
   is_freed (Local 0) (m_freedLocals gen_freed_once (m_type (m_locals_gen gen_freed_once ! nat (sint (m_index (Local 0)))))) \<and>
   free_local True (Local 0) gen_freed_once = Inl AssertionFailed \<and>
   locals_reachable True gen_freed_once \<and> free_lists_distinct gen_freed_once"
proof -
  have h: "0 \<le> sint (m_index (Local 0)) \<and> nat (sint (m_index (Local 0))) < length (m_locals_gen gen_freed_once) \<and>
   is_freed (Local 0) (m_freedLocals gen_freed_once (m_type (m_locals_gen gen_freed_once ! nat (sint (m_index (Local 0))))))"
    by (simp add: gen_freed_once_def)
  note t = free_local_double_free_debug [of "Local 0" gen_freed_once]
  from t h have a: "free_local True (Local 0) gen_freed_once = Inl AssertionFailed" by blast
  from t gen_freed_once_reachable [of True] have b: "free_lists_distinct gen_freed_once" by blast
  from h a b gen_freed_once_reachable [of True] show ?thesis by blast
qed

subsection \<open>Merging locals and states\<close>

lemma AbstractValue_merge_with_commute:
  "AbstractValue_merge_with a b = AbstractValue_merge_with b a"
  by (auto simp: AbstractValue_merge_with_def)

lemma AbstractValue_merge_with_idem: "AbstractValue_merge_with a a = a"
  by (simp add: AbstractValue_merge_with_def)

lemma AbstractValue_merge_with_Undefined_iff:
  "AbstractValue_merge_with a b = Undefined \<longleftrightarrow> a = Undefined \<and> b = Undefined"
  by (auto simp: AbstractValue_merge_with_def)

lemma AbstractValueWithSources_merge_with_commute:
  "AbstractValueWithSources_merge_with v w = AbstractValueWithSources_merge_with w v"
  by (simp add: AbstractValueWithSources_merge_with_def AbstractValue_merge_with_commute Un_commute)

lemma AbstractValueWithSources_merge_with_idem:
  "AbstractValueWithSources_merge_with v v = v"
  by (simp add: AbstractValueWithSources_merge_with_def AbstractValue_merge_with_idem)

lemma merge_with_commute: "merge_with a b = merge_with b a"
  by (simp add: merge_with_def AbstractValueWithSources_merge_with_commute [of "ValueInfo a"] disj_commute)

lemma merge_with_idem: "local_ok a \<Longrightarrow> merge_with a a = Inr a"
  by (simp add: merge_with_def AbstractValueWithSources_merge_with_idem AbstractLocalInfo_init_def
      local_ok_def split: if_splits)

lemma merge_with_Inr_iff:
  "merge_with a b = Inr r \<longleftrightarrow>
     (local_ok a \<or> local_ok b) \<and>
     r = \<lparr>ValueInfo = AbstractValueWithSources_merge_with (ValueInfo a) (ValueInfo b),
          IsMaybeUndefined = (IsMaybeUndefined a \<or> IsMaybeUndefined b)\<rparr>"
  by (auto simp: merge_with_def AbstractLocalInfo_init_def local_ok_def
      AbstractValueWithSources_merge_with_def AbstractValue_merge_with_Undefined_iff)

lemma AbstractLocalInfo_init_ok: "AbstractLocalInfo_init v u = Inr a \<Longrightarrow> local_ok a"
  by (cases "Value v = Undefined \<and> \<not> u") (auto simp: AbstractLocalInfo_init_def local_ok_def)

lemma merge_with_ok: "merge_with a b = Inr r \<Longrightarrow> local_ok r"
  unfolding merge_with_def by (rule AbstractLocalInfo_init_ok)

lemma reachable_local_ok: "reachable_local a \<Longrightarrow> local_ok a"
proof (induction rule: reachable_local.induct)
  case reach_default
  show ?case by (simp add: local_ok_def AbstractLocalInfo_default_def)
next
  case (reach_checked valueInfo isUndefined a)
  then show ?case by (rule AbstractLocalInfo_init_ok)
next
  case (reach_merged a b r)
  then show ?case by (simp add: merge_with_ok)
qed

lemma merge_stack_commute: "merge_stack xs ys = merge_stack ys xs"
proof (induction xs ys rule: merge_stack.induct)
  case (2 a as b bs)
  then show ?case
    by (simp add: AbstractValueWithSources_merge_with_commute [of a b] split: sum.splits)
qed simp_all

lemma merge_locals_commute: "merge_locals xs ys = merge_locals ys xs"
proof (induction xs ys rule: merge_locals.induct)
  case (2 a as b bs)
  then show ?case
    by (simp add: merge_with_commute [of a b] split: sum.splits)
qed simp_all

lemma merge_stack_idem: "merge_stack xs xs = Inr xs"
  by (induction xs) (simp_all add: AbstractValueWithSources_merge_with_idem)

lemma merge_locals_idem: "list_all local_ok xs \<Longrightarrow> merge_locals xs xs = Inr xs"
  by (induction xs) (simp_all add: merge_with_idem)

lemma merged_state_commute: "merged_state s t = merged_state t s"
  by (simp add: merged_state_def merge_states_def merge_stack_commute [of "m_stack s"]
      merge_locals_commute [of "m_locals s"] Let_def split: sum.splits)

lemma merge_states_idem:
  "list_all local_ok (m_locals s) \<Longrightarrow> merge_states s s = Inr (False, s)"
  by (simp add: merge_states_def merge_stack_idem merge_locals_idem)

lemma merge_with_fourth_state:
  "merge_with a b = Inl AssertionFailed \<longleftrightarrow> \<not> local_ok a \<and> \<not> local_ok b"
  by (auto simp: merge_with_def AbstractLocalInfo_init_def local_ok_def
      AbstractValueWithSources_merge_with_def AbstractValue_merge_with_Undefined_iff)

text \<open>
  C1: for every pair of \<^verbatim>\<open>AbstractLocalInfo\<close> values \<open>a\<close> and \<open>b\<close> of which at least one
  is outside the forbidden fourth state (no constructor builds a value in that state, and for
  two such values the assertion of the checked constructor fails), \<^verbatim>\<open>a.merge_with(b)\<close>
  returns a value whose \<^verbatim>\<open>IsMaybeUndefined\<close> is the disjunction of the two flags and whose
  value component is the merge of the two value components; an Undefined side is absorbed
  into the other side, and the result has the Undefined kind only when both sides have it.
\<close>

theorem merge_with_result:
  assumes "local_ok a \<or> local_ok b"
  shows "\<exists>r. merge_with a b = Inr r \<and>
           IsMaybeUndefined r = (IsMaybeUndefined a \<or> IsMaybeUndefined b) \<and>
           ValueInfo r = AbstractValueWithSources_merge_with (ValueInfo a) (ValueInfo b) \<and>
           (Value (ValueInfo a) = Undefined \<longrightarrow> Value (ValueInfo r) = Value (ValueInfo b)) \<and>
           (Value (ValueInfo b) = Undefined \<longrightarrow> Value (ValueInfo r) = Value (ValueInfo a)) \<and>
           (Value (ValueInfo r) = Undefined \<longleftrightarrow>
              Value (ValueInfo a) = Undefined \<and> Value (ValueInfo b) = Undefined)"
proof -
  let ?r = "\<lparr>ValueInfo = AbstractValueWithSources_merge_with (ValueInfo a) (ValueInfo b),
          IsMaybeUndefined = (IsMaybeUndefined a \<or> IsMaybeUndefined b)\<rparr>"
  from assms have "merge_with a b = Inr ?r" by (simp add: merge_with_Inr_iff)
  moreover have "Value (ValueInfo a) = Undefined \<longrightarrow> Value (ValueInfo ?r) = Value (ValueInfo b)"
    "Value (ValueInfo b) = Undefined \<longrightarrow> Value (ValueInfo ?r) = Value (ValueInfo a)"
    "Value (ValueInfo ?r) = Undefined \<longleftrightarrow>
              Value (ValueInfo a) = Undefined \<and> Value (ValueInfo b) = Undefined"
    by (auto simp: AbstractValueWithSources_merge_with_def AbstractValue_merge_with_def)
  ultimately show ?thesis by simp
qed

theorem merge_with_result_witness:
  "(local_ok AbstractLocalInfo_default \<or> local_ok local_int) \<and>
   merge_with AbstractLocalInfo_default local_int =
     Inr \<lparr>ValueInfo = \<lparr>Value = AV_Int, Sources = {LocalSource 0 0}\<rparr>, IsMaybeUndefined = True\<rparr>"
proof -
  have a: "local_ok AbstractLocalInfo_default"
    by (simp add: local_ok_def AbstractLocalInfo_default_def)
  have b: "local_ok local_int"
    by (simp add: local_ok_def local_int_def)
  from a have "local_ok AbstractLocalInfo_default \<or> local_ok local_int" ..
  from merge_with_result [OF this] obtain r where
    r: "merge_with AbstractLocalInfo_default local_int = Inr r" and
    f: "IsMaybeUndefined r = (IsMaybeUndefined AbstractLocalInfo_default \<or> IsMaybeUndefined local_int)" and
    v: "ValueInfo r =
          AbstractValueWithSources_merge_with (ValueInfo AbstractLocalInfo_default) (ValueInfo local_int)"
    by blast
  from f have f': "IsMaybeUndefined r" by (simp add: AbstractLocalInfo_default_def)
  from v have v': "ValueInfo r = \<lparr>Value = AV_Int, Sources = {LocalSource 0 0}\<rparr>"
    by (simp add: AbstractValueWithSources_merge_with_def AbstractValue_merge_with_def
        AbstractLocalInfo_default_def AbstractValueWithSources_default_def local_int_def)
  from f' v' have "r = \<lparr>ValueInfo = \<lparr>Value = AV_Int, Sources = {LocalSource 0 0}\<rparr>, IsMaybeUndefined = True\<rparr>"
    by (cases r) simp
  with r a b show ?thesis by simp
qed

text \<open>
  C2: no reachable \<^verbatim>\<open>AbstractLocalInfo\<close> has the Undefined kind with
  \<^verbatim>\<open>IsMaybeUndefined\<close> false. The default constructor makes Undefined with the flag true;
  the checked constructor rejects Undefined with the flag false; \<^verbatim>\<open>merge_with\<close> of two
  values that satisfy the invariant returns a value that satisfies it; hence every value
  built by the constructors and \<^verbatim>\<open>merge_with\<close> satisfies it. Whatever its operands are,
  a value that \<^verbatim>\<open>merge_with\<close> returns satisfies the invariant, since it is built by the
  checked constructor.
\<close>

theorem undefined_state_exclusion:
  "Value (ValueInfo AbstractLocalInfo_default) = Undefined \<and>
   IsMaybeUndefined AbstractLocalInfo_default \<and>
   (Value v = Undefined \<longrightarrow> AbstractLocalInfo_init v False = Inl AssertionFailed) \<and>
   (local_ok a \<and> local_ok b \<longrightarrow> (\<exists>r. merge_with a b = Inr r \<and> local_ok r)) \<and>
   (\<forall>r. merge_with a b = Inr r \<longrightarrow> local_ok r) \<and>
   (reachable_local x \<longrightarrow> \<not> (Value (ValueInfo x) = Undefined \<and> \<not> IsMaybeUndefined x))"
proof -
  have "local_ok a \<and> local_ok b \<longrightarrow> (\<exists>r. merge_with a b = Inr r \<and> local_ok r)"
    using merge_with_Inr_iff [of a b] merge_with_ok [of a b] by blast
  moreover have "reachable_local x \<longrightarrow> \<not> (Value (ValueInfo x) = Undefined \<and> \<not> IsMaybeUndefined x)"
    using reachable_local_ok [of x] by (auto simp: local_ok_def)
  ultimately show ?thesis
    by (simp add: AbstractLocalInfo_default_def AbstractValueWithSources_default_def
        AbstractLocalInfo_init_def merge_with_ok)
qed

theorem undefined_state_exclusion_witness:
  "Value \<lparr>Value = Undefined, Sources = {}\<rparr> = Undefined \<and>
   AbstractLocalInfo_init \<lparr>Value = Undefined, Sources = {}\<rparr> False = Inl AssertionFailed \<and>
   local_ok local_int \<and> local_ok local_float \<and>
   (\<exists>r. merge_with local_int local_float = Inr r \<and> local_ok r) \<and>
   reachable_local local_int \<and>
   \<not> (Value (ValueInfo local_int) = Undefined \<and> \<not> IsMaybeUndefined local_int)"
proof -
  have a: "local_ok local_int" and b: "local_ok local_float"
    by (simp_all add: local_ok_def local_int_def local_float_def)
  have "AbstractLocalInfo_init \<lparr>Value = AV_Int, Sources = {LocalSource 0 0}\<rparr> False = Inr local_int"
    by (simp add: AbstractLocalInfo_init_def local_int_def)
  then have c: "reachable_local local_int"
    by (rule reach_checked)
  note t = undefined_state_exclusion
    [of "\<lparr>Value = Undefined, Sources = {}\<rparr>" local_int local_float local_int]
  from t a b c show ?thesis by simp
qed

text \<open>
  C3: merging is commutative and idempotent. For \<^verbatim>\<open>AbstractLocalInfo\<close>,
  \<open>merge(A, B) = merge(B, A)\<close> for all values, and \<open>merge(A, A) = A\<close> for every value
  outside the forbidden fourth state (for which the constructor fails). Element-wise, for
  whole interpreter states at one offset, the merged state of \<open>S\<close> and \<open>T\<close> is the
  merged state of \<open>T\<close> and \<open>S\<close> (the same error when the shapes differ), and merging a
  state whose locals are outside the fourth state with itself gives the state back and
  reports no change.
\<close>

theorem merge_commutative_idempotent:
  "merge_with a b = merge_with b a \<and>
   (local_ok a \<longrightarrow> merge_with a a = Inr a) \<and>
   merged_state s t = merged_state t s \<and>
   (list_all local_ok (m_locals s) \<longrightarrow> merge_states s s = Inr (False, s) \<and> merged_state s s = Inr s)"
  using merge_with_commute [of a b] merged_state_commute [of s t]
  by (simp add: merge_with_idem merge_states_idem merged_state_def)

theorem merge_commutative_idempotent_witness:
  "local_ok local_int \<and> merge_with local_int local_float = merge_with local_float local_int \<and>
   merge_with local_int local_int = Inr local_int \<and>
   list_all local_ok (m_locals state_int) \<and>
   merged_state state_int state_float = merged_state state_float state_int \<and>
   merged_state state_int state_float =
     Inr \<lparr>m_stack = [\<lparr>Value = AV_Bool, Sources = {ConstSource 1 0, ConstSource 3 0}\<rparr>],
          m_locals = [\<lparr>ValueInfo = \<lparr>Value = AV_Object, Sources = {LocalSource 0 0, LocalSource 2 0}\<rparr>,
                       IsMaybeUndefined = False\<rparr>,
                      AbstractLocalInfo_default]\<rparr> \<and>
   merge_states state_int state_int = Inr (False, state_int)"
proof -
  have a: "local_ok local_int"
    by (simp add: local_ok_def local_int_def)
  have l: "list_all local_ok (m_locals state_int)"
    by (simp add: state_int_def local_ok_def local_int_def AbstractLocalInfo_default_def)
  have m: "merged_state state_int state_float =
     Inr \<lparr>m_stack = [\<lparr>Value = AV_Bool, Sources = {ConstSource 1 0, ConstSource 3 0}\<rparr>],
          m_locals = [\<lparr>ValueInfo = \<lparr>Value = AV_Object, Sources = {LocalSource 0 0, LocalSource 2 0}\<rparr>,
                       IsMaybeUndefined = False\<rparr>,
                      AbstractLocalInfo_default]\<rparr>"
    by (auto simp: merged_state_def merge_states_def state_int_def state_float_def local_int_def
        local_float_def merge_with_def AbstractLocalInfo_init_def AbstractLocalInfo_default_def
        AbstractValueWithSources_default_def AbstractValueWithSources_merge_with_def
        AbstractValue_merge_with_def Let_def)
  note t = merge_commutative_idempotent [of local_int local_float state_int state_float]
  from t a l m show ?thesis by simp
qed

subsection \<open>Copy-on-write isolation\<close>

lemma InterpreterState_copy_Inr:
  assumes "InterpreterState_copy s h = Inr (s', h1)"
  shows "cow_live (m_locals s) h" and "m_locals s' = m_locals s" and "m_stack s' = m_stack s"
    and "h1 = h[m_data (m_locals s) := (h ! m_data (m_locals s))\<lparr>refs := refs (h ! m_data (m_locals s)) + 1\<rparr>]"
  using assms
  by (auto simp: InterpreterState_copy_def CowVector_copy_def split: if_splits)

text \<open>
  C5: copy-on-write isolation. For a state \<open>s\<close> and a copy \<open>s'\<close> of it, every index
  \<open>i\<close> in range and every value \<open>v\<close>, \<^verbatim>\<open>s'.replace_local(i, v)\<close> succeeds and leaves
  every read \<^verbatim>\<open>s.get_local(j)\<close> of the original as it was before the write (also the
  failing reads outside the range); the fork reads \<open>v\<close> at \<open>i\<close> and the old contents
  elsewhere.
\<close>

theorem cow_isolation:
  assumes copy: "InterpreterState_copy s h = Inr (s', h1)"
    and cnt: "local_count s h = Inr n" and i: "i < n"
  shows "\<exists>s'' h2.
           replace_local i v s' h1 = Inr (s'', h2) \<and>
           (\<forall>j. get_local s j h2 = get_local s j h) \<and>
           local_count s h2 = local_count s h \<and>
           get_local s'' i h2 = Inr v \<and>
           (\<forall>j. j \<noteq> i \<longrightarrow> get_local s'' j h2 = get_local s j h)"
proof -
  let ?a = "m_data (m_locals s)"
  let ?d = "h ! ?a"
  note c = InterpreterState_copy_Inr [OF copy]
  from c(1) have a: "?a < length h" and r: "0 < refs ?d"
    by (simp_all add: cow_live_def)
  from cnt c(1) i have il: "i < length (items ?d)"
    by (simp add: local_count_def CowVector_size_def)
  let ?d1 = "?d\<lparr>refs := refs ?d + 1\<rparr>"
  let ?h2 = "h1[?a := ?d1\<lparr>refs := refs ?d1 - 1\<rparr>] @ [\<lparr>refs = 1, items = (items ?d1)[i := v]\<rparr>]"
  let ?s2 = "s'\<lparr>m_locals := CowVector (length h1)\<rparr>"
  have h1a: "h1 ! ?a = ?d1" and len1: "length h1 = length h"
    using a c(4) by simp_all
  have live1: "cow_live (m_locals s') h1"
    using a c(2) h1a len1 by (simp add: cow_live_def)
  have rep: "replace_local i v s' h1 = Inr (?s2, ?h2)"
    using live1 il r c(2) h1a
    by (simp add: replace_local_def CowVector_replace_def Let_def)
  have h2a: "?h2 ! ?a = ?d" and h2n: "?h2 ! length h1 = \<lparr>refs = 1, items = (items ?d)[i := v]\<rparr>"
    using a len1 by (simp_all add: nth_append)
  have live2: "cow_live (m_locals s) ?h2"
    using a r len1 h2a by (simp add: cow_live_def del: nth_append_length)
  have g: "get_local s j ?h2 = get_local s j h" for j
    using live2 c(1) h2a by (simp add: get_local_def CowVector_get_def del: nth_append_length)
  have lc: "local_count s ?h2 = local_count s h"
    using live2 c(1) h2a by (simp add: local_count_def CowVector_size_def del: nth_append_length)
  have live3: "cow_live (m_locals ?s2) ?h2"
    using h2n by (simp add: cow_live_def)
  have gi: "get_local ?s2 i ?h2 = Inr v"
    using live3 h2n il by (simp add: get_local_def CowVector_get_def)
  have gj: "get_local ?s2 j ?h2 = get_local s j h" if "j \<noteq> i" for j
    using live3 h2n il c(1) that by (simp add: get_local_def CowVector_get_def)
  from rep g lc gi gj show ?thesis by blast
qed

theorem cow_isolation_witness:
  "InterpreterState_init 2 AbstractLocalInfo_default [] = (cow_example_state, cow_example_store) \<and>
   InterpreterState_copy cow_example_state cow_example_store =
     Inr (cow_example_state,
          [\<lparr>refs = 2, items = [AbstractLocalInfo_default, AbstractLocalInfo_default]\<rparr>]) \<and>
   local_count cow_example_state cow_example_store = Inr 2 \<and> (1::nat) < 2 \<and>
   (\<exists>s'' h2.
      replace_local 1 local_int cow_example_state
        [\<lparr>refs = 2, items = [AbstractLocalInfo_default, AbstractLocalInfo_default]\<rparr>] = Inr (s'', h2) \<and>
      get_local cow_example_state 0 h2 = Inr AbstractLocalInfo_default \<and>
      get_local cow_example_state 1 h2 = Inr AbstractLocalInfo_default \<and>
      get_local s'' 1 h2 = Inr local_int)"
proof -
  let ?h1 = "[\<lparr>refs = 2, items = [AbstractLocalInfo_default, AbstractLocalInfo_default]\<rparr>]"
  have init: "InterpreterState_init 2 AbstractLocalInfo_default [] = (cow_example_state, cow_example_store)"
    by (simp add: InterpreterState_init_def CowVector_init_def cow_example_state_def
        cow_example_store_def numeral_2_eq_2)
  have copy: "InterpreterState_copy cow_example_state cow_example_store = Inr (cow_example_state, ?h1)"
    by (simp add: InterpreterState_copy_def CowVector_copy_def cow_live_def cow_example_state_def
        cow_example_store_def)
  have cnt: "local_count cow_example_state cow_example_store = Inr 2"
    by (simp add: local_count_def CowVector_size_def cow_live_def cow_example_state_def
        cow_example_store_def)
  have i: "(1::nat) < 2" by simp
  have g: "get_local cow_example_state 0 cow_example_store = Inr AbstractLocalInfo_default"
    "get_local cow_example_state 1 cow_example_store = Inr AbstractLocalInfo_default"
    by (simp_all add: get_local_def CowVector_get_def cow_live_def cow_example_state_def
        cow_example_store_def)
  from cow_isolation [OF copy cnt i, of local_int] g init copy cnt
  show ?thesis by auto
qed

subsection \<open>Labels and branch fixups\<close>

lemma list_all_update: "list_all P xs \<Longrightarrow> P x \<Longrightarrow> list_all P (xs[i := x])"
  by (auto simp: list_all_iff dest: set_update_subset_insert [THEN subsetD])























lemma mark_label_unchecked: "mark_label False label g \<noteq> Inl AssertionFailed"
proof (cases "vector_index (m_index_label label) (m_labels g)")
  case None
  then show ?thesis by (simp add: mark_label_def)
next
  case (Some i)
  have "patch_branches location sites il \<noteq> Inl AssertionFailed" for location sites il
    by (induction sites arbitrary: il)
      (auto simp: Let_def il_write_def split: sum.splits option.splits)
  with Some show ?thesis
    by (auto simp: mark_label_def Let_def split: sum.splits)
qed















lemma branch_offset_length:
  "length (m_il g) \<le> length (m_il (branch_offset enc bt off g))"
  by (simp add: branch_offset_def emit_int_def)











subsection \<open>Termination of the fixed-point analysis\<close>

lemma kind_rank_merge:
  "kind_rank a \<le> kind_rank (AbstractValue_merge_with a b) \<and>
   (kind_rank (AbstractValue_merge_with a b) = kind_rank a \<longrightarrow> AbstractValue_merge_with a b = a)"
  by (cases a; cases b) (simp_all add: AbstractValue_merge_with_def)

lemma kind_rank_le_2: "kind_rank a \<le> 2"
  by (cases a) simp_all

lemma card_diff_Un:
  assumes "finite U" and "B \<subseteq> U"
  shows "card (U - (A \<union> B)) \<le> card (U - A) \<and> (card (U - (A \<union> B)) = card (U - A) \<longrightarrow> A \<union> B = A)"
proof -
  have sub: "U - (A \<union> B) \<subseteq> U - A" by blast
  from assms(1) have fin: "finite (U - A)" by simp
  from sub fin have le: "card (U - (A \<union> B)) \<le> card (U - A)" by (rule card_mono [rotated])
  have "A \<union> B = A" if "card (U - (A \<union> B)) = card (U - A)"
  proof -
    from fin sub that have "U - (A \<union> B) = U - A" by (rule card_subset_eq)
    with assms(2) show ?thesis by blast
  qed
  with le show ?thesis by blast
qed

lemma value_room_merge:
  assumes "finite U" and "Sources b \<subseteq> U"
  shows "value_room U (AbstractValueWithSources_merge_with a b) \<le> value_room U a \<and>
         (value_room U (AbstractValueWithSources_merge_with a b) = value_room U a \<longrightarrow>
            AbstractValueWithSources_merge_with a b = a)"
proof -
  define x where "x = kind_rank (AbstractValue_merge_with (Value a) (Value b))"
  define y where "y = kind_rank (Value a)"
  define cm where "cm = card (U - (Sources a \<union> Sources b))"
  define ca where "ca = card (U - Sources a)"
  note d = x_def y_def cm_def ca_def
  have vm: "value_room U (AbstractValueWithSources_merge_with a b) = (2 - x) + cm"
    and va: "value_room U a = (2 - y) + ca"
    by (simp_all add: value_room_def AbstractValueWithSources_merge_with_def d)
  from kind_rank_merge [of "Value a" "Value b"]
  have k: "y \<le> x" and k': "x = y \<Longrightarrow> AbstractValue_merge_with (Value a) (Value b) = Value a"
    by (simp_all add: d)
  from card_diff_Un [OF assms, of "Sources a"]
  have c: "cm \<le> ca" and c': "cm = ca \<Longrightarrow> Sources a \<union> Sources b = Sources a"
    by (simp_all add: d)
  have r: "x \<le> 2" "y \<le> 2"
    by (simp_all add: d kind_rank_le_2)
  have le: "value_room U (AbstractValueWithSources_merge_with a b) \<le> value_room U a"
    unfolding vm va using k c r by linarith
  have "AbstractValueWithSources_merge_with a b = a"
    if "value_room U (AbstractValueWithSources_merge_with a b) = value_room U a"
  proof -
    from that have "(2 - x) + cm = (2 - y) + ca" by (simp only: vm va)
    with k c r have "x = y" "cm = ca" by linarith+
    with k' c' show ?thesis
      by (simp add: AbstractValueWithSources_merge_with_def)
  qed
  with le show ?thesis by blast
qed

lemma Sources_merge_subset:
  "Sources a \<subseteq> U \<Longrightarrow> Sources b \<subseteq> U \<Longrightarrow> Sources (AbstractValueWithSources_merge_with a b) \<subseteq> U"
  by (simp add: AbstractValueWithSources_merge_with_def)

lemma merge_with_InrD:
  "merge_with a b = Inr r \<Longrightarrow>
     r = \<lparr>ValueInfo = AbstractValueWithSources_merge_with (ValueInfo a) (ValueInfo b),
          IsMaybeUndefined = (IsMaybeUndefined a \<or> IsMaybeUndefined b)\<rparr>"
  by (auto simp: merge_with_def AbstractLocalInfo_init_def split: if_splits)

lemma local_room_merge:
  assumes "finite U" and "Sources (ValueInfo b) \<subseteq> U" and "merge_with a b = Inr r"
  shows "local_room U r \<le> local_room U a \<and> (local_room U r = local_room U a \<longrightarrow> r = a)"
proof -
  note v = value_room_merge [OF assms(1,2), of "ValueInfo a"]
  note r = merge_with_InrD [OF assms(3)]
  have le: "local_room U r \<le> local_room U a"
    using v by (auto simp: local_room_def r)
  have "r = a" if "local_room U r = local_room U a"
  proof -
    from that v have "value_room U (ValueInfo r) = value_room U (ValueInfo a)"
      and "IsMaybeUndefined r = IsMaybeUndefined a"
      by (auto simp: local_room_def r split: if_splits)
    with v show ?thesis by (simp add: r)
  qed
  with le show ?thesis by blast
qed

lemma merge_stack_room:
  assumes "finite U"
  shows "merge_stack xs ys = Inr rs \<Longrightarrow> list_all (\<lambda>v. Sources v \<subseteq> U) xs \<Longrightarrow>
         list_all (\<lambda>v. Sources v \<subseteq> U) ys \<Longrightarrow>
         list_all (\<lambda>v. Sources v \<subseteq> U) rs \<and>
         sum_list (map (value_room U) rs) \<le> sum_list (map (value_room U) xs) \<and>
         (sum_list (map (value_room U) rs) = sum_list (map (value_room U) xs) \<longrightarrow> rs = xs)"
proof (induction xs ys arbitrary: rs rule: merge_stack.induct)
  case 1
  then show ?case by simp
next
  case (2 a as b bs)
  from "2.prems"(1) obtain rs' where
    t: "merge_stack as bs = Inr rs'" and rs: "rs = AbstractValueWithSources_merge_with a b # rs'"
    by (auto split: sum.splits)
  from "2.prems" have b: "Sources b \<subseteq> U" and a: "Sources a \<subseteq> U" by simp_all
  note h = value_room_merge [OF assms b, of a]
  from "2.IH" [OF t] "2.prems" have ih:
    "list_all (\<lambda>v. Sources v \<subseteq> U) rs'"
    "sum_list (map (value_room U) rs') \<le> sum_list (map (value_room U) as)"
    "sum_list (map (value_room U) rs') = sum_list (map (value_room U) as) \<longrightarrow> rs' = as"
    by simp_all
  from h ih Sources_merge_subset [OF a b] show ?case
    by (auto simp: rs)
qed simp_all

lemma merge_locals_room:
  assumes "finite U"
  shows "merge_locals xs ys = Inr rs \<Longrightarrow> list_all (\<lambda>l. Sources (ValueInfo l) \<subseteq> U) xs \<Longrightarrow>
         list_all (\<lambda>l. Sources (ValueInfo l) \<subseteq> U) ys \<Longrightarrow>
         list_all (\<lambda>l. Sources (ValueInfo l) \<subseteq> U) rs \<and>
         sum_list (map (local_room U) rs) \<le> sum_list (map (local_room U) xs) \<and>
         (sum_list (map (local_room U) rs) = sum_list (map (local_room U) xs) \<longrightarrow> rs = xs)"
proof (induction xs ys arbitrary: rs rule: merge_locals.induct)
  case 1
  then show ?case by simp
next
  case (2 a as b bs)
  from "2.prems"(1) obtain r rs' where
    t: "merge_locals as bs = Inr rs'" and m: "merge_with a b = Inr r" and rs: "rs = r # rs'"
    by (auto split: sum.splits)
  from "2.prems" have b: "Sources (ValueInfo b) \<subseteq> U" and a: "Sources (ValueInfo a) \<subseteq> U"
    by simp_all
  note h = local_room_merge [OF assms b m]
  from merge_with_InrD [OF m] a b have s: "Sources (ValueInfo r) \<subseteq> U"
    by (simp add: AbstractValueWithSources_merge_with_def)
  from "2.IH" [OF t] "2.prems" have ih:
    "list_all (\<lambda>l. Sources (ValueInfo l) \<subseteq> U) rs'"
    "sum_list (map (local_room U) rs') \<le> sum_list (map (local_room U) as)"
    "sum_list (map (local_room U) rs') = sum_list (map (local_room U) as) \<longrightarrow> rs' = as"
    by simp_all
  from h ih s show ?case
    by (auto simp: rs)
qed simp_all

lemma merge_states_room:
  assumes "finite U" and "sources_in U newState" and "sources_in U mergeTo"
    and "merge_states newState mergeTo = Inr (changed, merged)"
  shows "sources_in U merged \<and> (changed \<longrightarrow> state_room U merged < state_room U mergeTo) \<and>
         (\<not> changed \<longrightarrow> merged = mergeTo)"
proof -
  from assms(4) obtain stack locals where
    st: "merge_stack (m_stack mergeTo) (m_stack newState) = Inr stack" and
    lo: "merge_locals (m_locals mergeTo) (m_locals newState) = Inr locals" and
    me: "merged = \<lparr>m_stack = stack, m_locals = locals\<rparr>" and
    ch: "changed = (merged \<noteq> mergeTo)"
    by (auto simp: merge_states_def Let_def split: sum.splits)
  note s = merge_stack_room [OF assms(1) st] and l = merge_locals_room [OF assms(1) lo]
  from assms(2,3) have p:
    "list_all (\<lambda>v. Sources v \<subseteq> U) (m_stack mergeTo)" "list_all (\<lambda>v. Sources v \<subseteq> U) (m_stack newState)"
    "list_all (\<lambda>l. Sources (ValueInfo l) \<subseteq> U) (m_locals mergeTo)"
    "list_all (\<lambda>l. Sources (ValueInfo l) \<subseteq> U) (m_locals newState)"
    by (simp_all add: sources_in_def)
  note s' = s [OF p(1,2)] and l' = l [OF p(3,4)]
  have in': "sources_in U merged"
    using s' l' by (simp add: sources_in_def me)
  have le: "state_room U merged \<le> state_room U mergeTo"
    using s' l' by (simp add: state_room_def me add_mono)
  have eq: "merged = mergeTo" if "state_room U merged = state_room U mergeTo"
  proof -
    from that s' l' have "sum_list (map (value_room U) stack) = sum_list (map (value_room U) (m_stack mergeTo))"
      and "sum_list (map (local_room U) locals) = sum_list (map (local_room U) (m_locals mergeTo))"
      by (simp_all add: state_room_def me)
    with s' l' have "stack = m_stack mergeTo" "locals = m_locals mergeTo" by simp_all
    then show ?thesis by (simp add: me)
  qed
  from le eq have "changed \<longrightarrow> state_room U merged < state_room U mergeTo"
    unfolding ch by (auto simp: le_less)
  with in' ch show ?thesis by simp
qed

lemma merge_locals_ok: "merge_locals xs ys = Inr rs \<Longrightarrow> list_all local_ok rs"
proof (induction xs ys arbitrary: rs rule: merge_locals.induct)
  case (2 a as b bs)
  from "2.prems" obtain r rs' where
    t: "merge_locals as bs = Inr rs'" and m: "merge_with a b = Inr r" and rs: "rs = r # rs'"
    by (auto split: sum.splits)
  from "2.IH" [OF t] merge_with_ok [OF m] show ?case by (simp add: rs)
qed simp_all

lemma merge_states_ok:
  assumes "finite U" and "state_ok U newState" and "state_ok U mergeTo"
    and "merge_states newState mergeTo = Inr (changed, merged)"
  shows "state_ok U merged \<and> (changed \<longrightarrow> state_room U merged < state_room U mergeTo) \<and>
         (\<not> changed \<longrightarrow> merged = mergeTo)"
proof -
  from assms(2,3) have "sources_in U newState" "sources_in U mergeTo"
    by (simp_all add: state_ok_def)
  note r = merge_states_room [OF assms(1) this assms(4)]
  from assms(4) obtain locals where
    "merge_locals (m_locals mergeTo) (m_locals newState) = Inr locals" "m_locals merged = locals"
    by (auto simp: merge_states_def Let_def split: sum.splits)
  then have "list_all local_ok (m_locals merged)"
    using merge_locals_ok by blast
  with r show ?thesis by (simp add: state_ok_def)
qed

lemma table_less_trans:
  "table_less U n c b \<Longrightarrow> table_less U n b a \<Longrightarrow> table_less U n c a"
  by (auto simp: table_less_def)

lemma unrecorded_record:
  assumes "index \<le> n" and "states index = None"
  shows "unrecorded n (states(index \<mapsto> s)) < unrecorded n states"
proof -
  have fin: "finite {i. i \<le> n \<and> states i = None}" by simp
  have "{i. i \<le> n \<and> (states(index \<mapsto> s)) i = None} \<subset> {i. i \<le> n \<and> states i = None}"
    using assms by auto
  with fin show ?thesis
    unfolding unrecorded_def by (rule psubset_card_mono)
qed

lemma unrecorded_overwrite:
  assumes "states index = Some old"
  shows "unrecorded n (states(index \<mapsto> s)) = unrecorded n states"
proof -
  have "{i. i \<le> n \<and> (states(index \<mapsto> s)) i = None} = {i. i \<le> n \<and> states i = None}"
    using assms by auto
  then show ?thesis by (simp add: unrecorded_def)
qed

lemma table_room_overwrite:
  assumes "index \<le> n" and "states index = Some old" and "state_room U s < state_room U old"
  shows "table_room U n (states(index \<mapsto> s)) < table_room U n states"
  unfolding table_room_def
proof (rule sum_strict_mono_ex1)
  show "finite {..n}" by simp
  show "\<forall>i \<in> {..n}. (case (states(index \<mapsto> s)) i of None \<Rightarrow> 0 | Some t \<Rightarrow> state_room U t)
          \<le> (case states i of None \<Rightarrow> 0 | Some t \<Rightarrow> state_room U t)"
    using assms by auto
  show "\<exists>i \<in> {..n}. (case (states(index \<mapsto> s)) i of None \<Rightarrow> 0 | Some t \<Rightarrow> state_room U t)
          < (case states i of None \<Rightarrow> 0 | Some t \<Rightarrow> state_room U t)"
    using assms by (intro bexI [of _ index]) simp_all
qed

lemma update_start_state_less:
  assumes fin: "finite U" and ok: "table_ok U n states" and idx: "index \<le> n"
    and src: "state_ok U newState"
    and run: "update_start_state newState index states = Inr (changed, states')"
  shows "table_ok U n states' \<and> (changed \<longrightarrow> table_less U n states' states) \<and>
         (\<not> changed \<longrightarrow> states' = states)"
proof (cases "states index")
  case None
  with run have c: "changed" and s: "states' = states(index \<mapsto> newState)"
    by (simp_all add: update_start_state_def)
  from ok idx src have "table_ok U n states'"
    by (simp add: table_ok_def s)
  moreover from unrecorded_record [of index n states newState, OF idx None] have "table_less U n states' states"
    by (simp add: table_less_def s)
  ultimately show ?thesis using c by simp
next
  case (Some old)
  with run obtain merged where
    m: "merge_states newState old = Inr (changed, merged)" and s: "states' = states(index \<mapsto> merged)"
    by (auto simp: update_start_state_def split: sum.splits)
  from ok Some have old: "state_ok U old" by (simp add: table_ok_def)
  note r = merge_states_ok [OF fin src old m]
  from ok idx r have t: "table_ok U n states'"
    by (simp add: table_ok_def s)
  have l: "table_less U n states' states" if changed
  proof -
    from that r have "state_room U merged < state_room U old" by simp
    from table_room_overwrite [of index n states old U merged, OF idx Some this]
      unrecorded_overwrite [of states index old n merged, OF Some]
    show ?thesis by (simp add: table_less_def s)
  qed
  have e: "states' = states" if "\<not> changed"
  proof -
    from that r have "merged = old" by simp
    with Some show ?thesis by (simp add: s fun_upd_idem)
  qed
  from t l e show ?thesis by blast
qed

lemma propagate_less:
  assumes fin: "finite U"
  shows "propagate successors states queue = Inr (states', queue') \<Longrightarrow> table_ok U n states \<Longrightarrow>
         list_all (\<lambda>(index, s'). index \<le> n \<and> state_ok U s') successors \<Longrightarrow>
         table_ok U n states' \<and> ((states' = states \<and> queue' = queue) \<or> table_less U n states' states)"
proof (induction successors states queue rule: propagate.induct)
  case (1 m_startStates queue)
  then show ?case by simp
next
  case (2 index newState successors m_startStates queue)
  from "2.prems"(1) obtain changed states1 where
    u: "update_start_state newState index m_startStates = Inr (changed, states1)" and
    p: "propagate successors states1 (if changed then queue @ [index] else queue) = Inr (states', queue')"
    by (auto split: sum.splits)
  from "2.prems"(3) have idx: "index \<le> n" and src: "state_ok U newState"
    and rest: "list_all (\<lambda>(index, s'). index \<le> n \<and> state_ok U s') successors"
    by simp_all
  note h = update_start_state_less [OF fin "2.prems"(2) idx src u]
  from h have ok1: "table_ok U n states1" by simp
  from "2.IH" [OF u refl p ok1 rest] have ih: "table_ok U n states'"
    "(states' = states1 \<and> queue' = (if changed then queue @ [index] else queue)) \<or>
       table_less U n states' states1"
    by simp_all
  show ?case
  proof (cases changed)
    case True
    with h have "table_less U n states1 m_startStates" by simp
    with ih(2) have "table_less U n states' m_startStates"
      by (auto intro: table_less_trans)
    with ih(1) show ?thesis by simp
  next
    case False
    with h have "states1 = m_startStates" by simp
    with ih False show ?thesis by auto
  qed
qed

lemma interpret_loop_more_fuel:
  "interpret_loop fuel code transfer states queue = Some r \<Longrightarrow> fuel \<le> fuel' \<Longrightarrow>
   interpret_loop fuel' code transfer states queue = Some r"
proof (induction fuel code transfer states queue arbitrary: fuel' rule: interpret_loop.induct)
  case (1 fuel code transfer m_startStates)
  then show ?case by simp
next
  case (2 code transfer m_startStates cur queue)
  then show ?case by simp
next
  case (3 fuel code transfer m_startStates cur queue)
  from "3.prems"(2) obtain k where k: "fuel' = Suc k" and le: "fuel \<le> k"
    by (cases fuel') auto
  show ?case
  proof (cases "interpret_step code transfer m_startStates cur queue")
    case (Inl e)
    with "3.prems"(1) show ?thesis by (simp add: k)
  next
    case (Inr p)
    obtain states queue' where p: "p = (states, queue')" by (cases p)
    from "3.prems"(1) Inr p have "interpret_loop fuel code transfer states queue' = Some r"
      by simp
    from "3.IH" [OF Inr p [symmetric] this le] Inr p show ?thesis
      by (simp add: k)
  qed
qed

lemma interpret_step_less:
  assumes fin: "finite U" and wf: "well_formed_stream U code transfer"
    and ok: "table_ok U (length code) states"
    and step: "interpret_step code transfer states cur queue = Inr (states', queue')"
  shows "table_ok U (length code) states' \<and>
         ((states' = states \<and> queue' = queue) \<or> table_less U (length code) states' states)"
proof -
  from step obtain lastState where rec: "states cur = Some lastState"
    by (auto simp: interpret_step_def split: option.splits)
  show ?thesis
  proof (cases "cur < length code")
    case True
    with step rec obtain successors where
      t: "transfer (code ! cur) cur lastState = Inr successors" and
      p: "propagate successors states queue = Inr (states', queue')"
      by (auto simp: interpret_step_def split: sum.splits)
    from ok rec have "state_ok U lastState" by (simp add: table_ok_def)
    with wf True t have "list_all (\<lambda>(index, s'). index \<le> length code \<and> state_ok U s') successors"
      unfolding well_formed_stream_def by blast
    from propagate_less [OF fin p ok this] show ?thesis .
  next
    case False
    with step rec ok show ?thesis by (simp add: interpret_step_def)
  qed
qed

lemma interpret_loop_terminates:
  assumes fin: "finite U" and wf: "well_formed_stream U code transfer"
  shows "table_ok U (length code) states \<Longrightarrow>
         \<exists>fuel r. interpret_loop fuel code transfer states queue = Some r"
proof (induction "(states, queue)" arbitrary: states queue
    rule: wf_induct_rule [OF wf_measures
      [of "[\<lambda>(s, q). unrecorded (length code) s, \<lambda>(s, q). table_room U (length code) s, \<lambda>(s, q). length q]"]])
  case 1
  show ?case
  proof (cases queue)
    case Nil
    then have "interpret_loop 0 code transfer states queue = Some (Inr states)" by simp
    then show ?thesis by blast
  next
    case (Cons cur rest)
    show ?thesis
    proof (cases "interpret_step code transfer states cur rest")
      case (Inl e)
      with Cons have "interpret_loop (Suc 0) code transfer states queue = Some (Inl e)" by simp
      then show ?thesis by blast
    next
      case (Inr p)
      obtain states' queue' where p: "p = (states', queue')" by (cases p)
      note l = interpret_step_less [OF fin wf "1.prems" Inr [unfolded p]]
      from l have ok': "table_ok U (length code) states'" by simp
      from l Cons have "((states', queue'), (states, queue)) \<in>
          measures [\<lambda>(s, q). unrecorded (length code) s, \<lambda>(s, q). table_room U (length code) s, \<lambda>(s, q). length q]"
        by (auto simp: table_less_def)
      from "1.hyps" [OF this ok'] obtain fuel r where
        "interpret_loop fuel code transfer states' queue' = Some r" by blast
      with Cons Inr p have "interpret_loop (Suc fuel) code transfer states queue = Some r" by simp
      then show ?thesis by blast
    qed
  qed
qed

lemma update_start_state_changed:
  assumes "update_start_state newState index states = Inr (changed, states')"
  shows "changed \<longleftrightarrow> states' \<noteq> states"
proof (cases "states index")
  case None
  with assms have "changed" "states' index = Some newState"
    by (auto simp: update_start_state_def)
  with None show ?thesis by auto
next
  case (Some old)
  with assms obtain merged where
    m: "merge_states newState old = Inr (changed, merged)" and s: "states' = states(index \<mapsto> merged)"
    by (auto simp: update_start_state_def split: sum.splits)
  from m have c: "changed = (merged \<noteq> old)"
    by (auto simp: merge_states_def Let_def split: sum.splits)
  have "states' = states \<longleftrightarrow> merged = old"
  proof
    assume "states' = states"
    then have "states' index = states index" by simp
    with Some s show "merged = old" by simp
  next
    assume "merged = old"
    with Some s show "states' = states" by (simp add: fun_upd_idem)
  qed
  with c show ?thesis by simp
qed

lemma AbstractValue_merge_with_assoc:
  "AbstractValue_merge_with (AbstractValue_merge_with a b) c =
   AbstractValue_merge_with a (AbstractValue_merge_with b c)"
  by (auto simp: AbstractValue_merge_with_def)

lemma AbstractValueWithSources_merge_with_assoc:
  "AbstractValueWithSources_merge_with (AbstractValueWithSources_merge_with a b) c =
   AbstractValueWithSources_merge_with a (AbstractValueWithSources_merge_with b c)"
  by (simp add: AbstractValueWithSources_merge_with_def AbstractValue_merge_with_assoc Un_assoc)

lemma value_absorb_grow:
  assumes "AbstractValueWithSources_merge_with t x = t"
  shows "AbstractValueWithSources_merge_with (AbstractValueWithSources_merge_with t y) x =
         AbstractValueWithSources_merge_with t y"
proof -
  have "AbstractValueWithSources_merge_with (AbstractValueWithSources_merge_with t y) x =
        AbstractValueWithSources_merge_with (AbstractValueWithSources_merge_with y t) x"
    by (simp only: AbstractValueWithSources_merge_with_commute [of t y])
  also have "\<dots> = AbstractValueWithSources_merge_with y (AbstractValueWithSources_merge_with t x)"
    by (rule AbstractValueWithSources_merge_with_assoc)
  also have "\<dots> = AbstractValueWithSources_merge_with y t"
    by (simp only: assms)
  also have "\<dots> = AbstractValueWithSources_merge_with t y"
    by (rule AbstractValueWithSources_merge_with_commute)
  finally show ?thesis .
qed

lemma value_absorb_self:
  "AbstractValueWithSources_merge_with (AbstractValueWithSources_merge_with t y) y =
   AbstractValueWithSources_merge_with t y"
  by (simp add: AbstractValueWithSources_merge_with_assoc AbstractValueWithSources_merge_with_idem)

lemma local_absorb_grow:
  assumes "merge_with t x = Inr t" and "merge_with t y = Inr t'"
  shows "merge_with t' x = Inr t'"
proof -
  note a = merge_with_InrD [OF assms(1)] and b = merge_with_InrD [OF assms(2)]
  from a have v: "AbstractValueWithSources_merge_with (ValueInfo t) (ValueInfo x) = ValueInfo t"
    and f: "(IsMaybeUndefined t \<or> IsMaybeUndefined x) = IsMaybeUndefined t"
    by (cases t; simp)+
  from assms(2) have ok: "local_ok t'" by (rule merge_with_ok)
  have "ValueInfo t' = AbstractValueWithSources_merge_with (ValueInfo t) (ValueInfo y)"
    and "IsMaybeUndefined t' = (IsMaybeUndefined t \<or> IsMaybeUndefined y)"
    by (simp_all add: b)
  with value_absorb_grow [OF v, of "ValueInfo y"] f ok show ?thesis
    by (cases t') (auto simp: merge_with_Inr_iff)
qed

lemma local_absorb_self:
  assumes "merge_with t y = Inr t'"
  shows "merge_with t' y = Inr t'"
proof -
  note b = merge_with_InrD [OF assms]
  from assms have ok: "local_ok t'" by (rule merge_with_ok)
  have "ValueInfo t' = AbstractValueWithSources_merge_with (ValueInfo t) (ValueInfo y)"
    and "IsMaybeUndefined t' = (IsMaybeUndefined t \<or> IsMaybeUndefined y)"
    by (simp_all add: b)
  with value_absorb_self [of "ValueInfo t" "ValueInfo y"] ok show ?thesis
    by (cases t') (auto simp: merge_with_Inr_iff)
qed

lemma merge_stack_absorb_grow:
  "merge_stack t x = Inr t \<Longrightarrow> merge_stack t y = Inr t' \<Longrightarrow> merge_stack t' x = Inr t'"
proof (induction t y arbitrary: x t' rule: merge_stack.induct)
  case 1
  then show ?case by simp
next
  case (2 a as b bs)
  from "2.prems"(2) obtain rs where
    r: "merge_stack as bs = Inr rs" and t': "t' = AbstractValueWithSources_merge_with a b # rs"
    by (auto split: sum.splits)
  from "2.prems"(1) obtain c cs where x: "x = c # cs"
    by (cases x) auto
  from "2.prems"(1) x have h: "merge_stack as cs = Inr as" and v: "AbstractValueWithSources_merge_with a c = a"
    by (auto split: sum.splits)
  from "2.IH" [OF h r] value_absorb_grow [OF v, of b] show ?case
    by (simp add: t' x)
qed simp_all

lemma merge_stack_absorb_self:
  "merge_stack t y = Inr t' \<Longrightarrow> merge_stack t' y = Inr t'"
proof (induction t y arbitrary: t' rule: merge_stack.induct)
  case (2 a as b bs)
  from "2.prems" obtain rs where
    r: "merge_stack as bs = Inr rs" and t': "t' = AbstractValueWithSources_merge_with a b # rs"
    by (auto split: sum.splits)
  from "2.IH" [OF r] value_absorb_self [of a b] show ?case
    by (simp add: t')
qed simp_all

lemma merge_locals_absorb_grow:
  "merge_locals t x = Inr t \<Longrightarrow> merge_locals t y = Inr t' \<Longrightarrow> merge_locals t' x = Inr t'"
proof (induction t y arbitrary: x t' rule: merge_locals.induct)
  case 1
  then show ?case by simp
next
  case (2 a as b bs)
  from "2.prems"(2) obtain r rs where
    r: "merge_locals as bs = Inr rs" and m: "merge_with a b = Inr r" and t': "t' = r # rs"
    by (auto split: sum.splits)
  from "2.prems"(1) obtain c cs where x: "x = c # cs"
    by (cases x) auto
  from "2.prems"(1) x have h: "merge_locals as cs = Inr as" and v: "merge_with a c = Inr a"
    by (auto split: sum.splits)
  from "2.IH" [OF h r] local_absorb_grow [OF v m] show ?case
    by (simp add: t' x)
qed simp_all

lemma merge_locals_absorb_self:
  "merge_locals t y = Inr t' \<Longrightarrow> merge_locals t' y = Inr t'"
proof (induction t y arbitrary: t' rule: merge_locals.induct)
  case (2 a as b bs)
  from "2.prems" obtain r rs where
    r: "merge_locals as bs = Inr rs" and m: "merge_with a b = Inr r" and t': "t' = r # rs"
    by (auto split: sum.splits)
  from "2.IH" [OF r] local_absorb_self [OF m] show ?case
    by (simp add: t')
qed simp_all

lemma merge_states_InrD:
  assumes "merge_states y t = Inr (ch, t')"
  shows "merge_stack (m_stack t) (m_stack y) = Inr (m_stack t')"
    and "merge_locals (m_locals t) (m_locals y) = Inr (m_locals t')"
  using assms by (auto simp: merge_states_def Let_def split: sum.splits)

lemma absorbedD:
  assumes "absorbed x t"
  shows "merge_stack (m_stack t) (m_stack x) = Inr (m_stack t)"
    and "merge_locals (m_locals t) (m_locals x) = Inr (m_locals t)"
  using assms unfolding absorbed_def by (rule merge_states_InrD)+

lemma absorbedI:
  assumes "merge_stack (m_stack t) (m_stack x) = Inr (m_stack t)"
    and "merge_locals (m_locals t) (m_locals x) = Inr (m_locals t)"
  shows "absorbed x t"
  using assms by (simp add: absorbed_def merge_states_def)

lemma absorbed_grow:
  assumes "absorbed x t" and "merge_states y t = Inr (ch, t')"
  shows "absorbed x t'"
  using merge_stack_absorb_grow [OF absorbedD(1) [OF assms(1)] merge_states_InrD(1) [OF assms(2)]]
    merge_locals_absorb_grow [OF absorbedD(2) [OF assms(1)] merge_states_InrD(2) [OF assms(2)]]
  by (rule absorbedI)

lemma absorbed_merged:
  assumes "merge_states y t = Inr (ch, t')"
  shows "absorbed y t'"
  using merge_stack_absorb_self [OF merge_states_InrD(1) [OF assms]]
    merge_locals_absorb_self [OF merge_states_InrD(2) [OF assms]]
  by (rule absorbedI)

lemma absorbed_refl: "list_all local_ok (m_locals s) \<Longrightarrow> absorbed s s"
  by (simp add: absorbed_def merge_states_idem)

lemma grows_refl: "grows states states"
  by (simp add: grows_def)

lemma grows_trans: "grows a b \<Longrightarrow> grows b c \<Longrightarrow> grows a c"
  unfolding grows_def by (meson)

lemma update_start_state_grows:
  assumes run: "update_start_state newState index states = Inr (changed, states')"
    and ok: "list_all local_ok (m_locals newState)"
  shows "grows states states'"
    and "\<exists>t'. states' index = Some t' \<and> absorbed newState t'"
    and "\<forall>i. i \<noteq> index \<longrightarrow> states' i = states i"
    and "\<not> changed \<longrightarrow> states' = states"
proof -
  show "\<not> changed \<longrightarrow> states' = states"
    using update_start_state_changed [OF run] by simp
  show "grows states states'" "\<exists>t'. states' index = Some t' \<and> absorbed newState t'"
    "\<forall>i. i \<noteq> index \<longrightarrow> states' i = states i"
  proof (atomize (full), cases "states index")
    case None
    with run have s: "states' = states(index \<mapsto> newState)"
      by (simp add: update_start_state_def)
    from None show "grows states states' \<and> (\<exists>t'. states' index = Some t' \<and> absorbed newState t') \<and>
        (\<forall>i. i \<noteq> index \<longrightarrow> states' i = states i)"
      using absorbed_refl [OF ok] by (auto simp: s grows_def)
  next
    case (Some old)
    with run obtain merged where
      m: "merge_states newState old = Inr (changed, merged)" and s: "states' = states(index \<mapsto> merged)"
      by (auto simp: update_start_state_def split: sum.splits)
    from absorbed_grow [OF _ m] absorbed_merged [OF m] Some
    show "grows states states' \<and> (\<exists>t'. states' index = Some t' \<and> absorbed newState t') \<and>
        (\<forall>i. i \<noteq> index \<longrightarrow> states' i = states i)"
      by (auto simp: s grows_def)
  qed
qed

lemma propagate_grows:
  "propagate successors states queue = Inr (states', queue') \<Longrightarrow>
   list_all (\<lambda>(index, s'). list_all local_ok (m_locals s')) successors \<Longrightarrow>
   set queue \<subseteq> set queue' \<and> grows states states' \<and>
   (\<forall>i. states' i = states i \<or> i \<in> set queue') \<and>
   list_all (\<lambda>(index, s'). case states' index of None \<Rightarrow> False | Some t \<Rightarrow> absorbed s' t) successors"
proof (induction successors states queue rule: propagate.induct)
  case (1 m_startStates queue)
  then show ?case by (simp add: grows_refl)
next
  case (2 index newState successors m_startStates queue)
  from "2.prems"(1) obtain changed states1 where
    u: "update_start_state newState index m_startStates = Inr (changed, states1)" and
    p: "propagate successors states1 (if changed then queue @ [index] else queue) = Inr (states', queue')"
    by (auto split: sum.splits)
  from "2.prems"(2) have ok: "list_all local_ok (m_locals newState)"
    and rest: "list_all (\<lambda>(index, s'). list_all local_ok (m_locals s')) successors"
    by simp_all
  note h = update_start_state_grows [OF u ok]
  from "2.IH" [OF u refl p rest] have ih:
    "set (if changed then queue @ [index] else queue) \<subseteq> set queue'"
    "grows states1 states'"
    "\<forall>i. states' i = states1 i \<or> i \<in> set queue'"
    "list_all (\<lambda>(index, s'). case states' index of None \<Rightarrow> False | Some t \<Rightarrow> absorbed s' t) successors"
    by simp_all
  from ih(1) have q: "set queue \<subseteq> set queue'" and c: "changed \<longrightarrow> index \<in> set queue'"
    by (auto split: if_splits)
  from h(1) ih(2) have g: "grows m_startStates states'" by (rule grows_trans)
  have e: "states' i = m_startStates i \<or> i \<in> set queue'" for i
  proof (cases "i = index")
    case True
    show ?thesis
    proof (cases changed)
      case True
      with c \<open>i = index\<close> show ?thesis by simp
    next
      case False
      with h(4) have "states1 = m_startStates" by simp
      with ih(3) [rule_format, of i] show ?thesis by simp
    qed
  next
    case False
    with h(3) have "states1 i = m_startStates i" by simp
    with ih(3) [rule_format, of i] show ?thesis by simp
  qed
  from h(2) obtain t1 where t1: "states1 index = Some t1" and a1: "absorbed newState t1" by blast
  from ih(2) t1 a1 obtain t' where "states' index = Some t'" and "absorbed newState t'"
    unfolding grows_def by blast
  with q g e ih(4) show ?case by simp
qed

lemma stable_at_grows:
  assumes st: "stable_at code transfer states cur" and same: "states' cur = states cur"
    and g: "grows states states'"
  shows "stable_at code transfer states' cur"
proof (cases "states cur")
  case None
  with same show ?thesis by (simp add: stable_at_def)
next
  case (Some s)
  show ?thesis
  proof (cases "cur < length code")
    case True
    with st Some obtain successors where
      t: "transfer (code ! cur) cur s = Inr successors" and
      a: "list_all (\<lambda>(index, s'). case states index of None \<Rightarrow> False | Some t \<Rightarrow> absorbed s' t) successors"
      by (auto simp: stable_at_def split: sum.splits)
    have "list_all (\<lambda>(index, s'). case states' index of None \<Rightarrow> False | Some t \<Rightarrow> absorbed s' t) successors"
      unfolding list_all_iff
    proof (intro ballI)
      fix p assume p: "p \<in> set successors"
      obtain index s' where ps: "p = (index, s')" by (cases p)
      from a p ps obtain t where "states index = Some t" "absorbed s' t"
        by (auto simp: list_all_iff split: option.splits)
      with g obtain t' where "states' index = Some t'" "absorbed s' t'"
        unfolding grows_def by blast
      then show "case p of (index, s') \<Rightarrow> (case states' index of None \<Rightarrow> False | Some t \<Rightarrow> absorbed s' t)"
        by (simp add: ps)
    qed
    with True Some same t show ?thesis by (simp add: stable_at_def)
  next
    case False
    with Some same show ?thesis by (simp add: stable_at_def)
  qed
qed

lemma interpret_step_inv:
  assumes fin: "finite U" and wf: "well_formed_stream U code transfer"
    and ok: "table_ok U (length code) states"
    and inv: "loop_inv code transfer states (cur # queue)"
    and step: "interpret_step code transfer states cur queue = Inr (states', queue')"
  shows "loop_inv code transfer states' queue'"
proof -
  from step obtain lastState where rec: "states cur = Some lastState"
    by (auto simp: interpret_step_def split: option.splits)
  show ?thesis
  proof (cases "cur < length code")
    case True
    with step rec obtain successors where
      t: "transfer (code ! cur) cur lastState = Inr successors" and
      p: "propagate successors states queue = Inr (states', queue')"
      by (auto simp: interpret_step_def split: sum.splits)
    from ok rec have "state_ok U lastState" by (simp add: table_ok_def)
    with wf True t have "list_all (\<lambda>(index, s'). index \<le> length code \<and> state_ok U s') successors"
      unfolding well_formed_stream_def by blast
    then have "list_all (\<lambda>(index, s'). list_all local_ok (m_locals s')) successors"
      by (auto simp: list_all_iff state_ok_def)
    note g = propagate_grows [OF p this]
    show ?thesis
      unfolding loop_inv_def
    proof (intro allI impI)
      fix c assume c: "c \<notin> set queue'"
      with g have same: "states' c = states c" and cq: "c \<notin> set queue" by auto
      show "stable_at code transfer states' c"
      proof (cases "c = cur")
        case True
        with same rec \<open>cur < length code\<close> t g show ?thesis
          by (simp add: stable_at_def)
      next
        case False
        with cq inv have "stable_at code transfer states c" by (simp add: loop_inv_def)
        moreover from g have "grows states states'" by simp
        ultimately show ?thesis using same
          by (intro stable_at_grows [of code transfer states c states'])
      qed
    qed
  next
    case False
    with step rec have e: "states' = states" "queue' = queue" by (simp_all add: interpret_step_def)
    show ?thesis
      unfolding loop_inv_def e
    proof (intro allI impI)
      fix c assume c: "c \<notin> set queue"
      show "stable_at code transfer states c"
      proof (cases "c = cur")
        case True
        with rec False show ?thesis by (simp add: stable_at_def)
      next
        case False
        with c inv show ?thesis by (simp add: loop_inv_def)
      qed
    qed
  qed
qed

lemma interpret_loop_fixed_point:
  assumes fin: "finite U" and wf: "well_formed_stream U code transfer"
  shows "interpret_loop fuel code transfer states queue = Some (Inr final) \<Longrightarrow>
         table_ok U (length code) states \<Longrightarrow> loop_inv code transfer states queue \<Longrightarrow>
         fixed_point code transfer final"
proof (induction fuel arbitrary: states queue)
  case 0
  then show ?case
    by (cases queue) (simp_all add: loop_inv_def fixed_point_def)
next
  case (Suc fuel)
  show ?case
  proof (cases queue)
    case Nil
    with Suc.prems show ?thesis
      by (simp add: loop_inv_def fixed_point_def)
  next
    case (Cons cur rest)
    with Suc.prems(1) obtain states' queue' where
      step: "interpret_step code transfer states cur rest = Inr (states', queue')" and
      run: "interpret_loop fuel code transfer states' queue' = Some (Inr final)"
      by (auto split: sum.splits)
    from interpret_step_less [OF fin wf Suc.prems(2) step]
    have ok': "table_ok U (length code) states'" by simp
    from interpret_step_inv [OF fin wf Suc.prems(2) Suc.prems(3) [unfolded Cons] step]
    have inv': "loop_inv code transfer states' queue'" .
    from Suc.IH [OF run ok' inv'] show ?thesis .
  qed
qed

text \<open>
  C4: the fixed-point analysis terminates on every finite, well-formed instruction stream.
  For a finite set of source tags, a well-formed stream and a start state in order, some
  amount of fuel is enough: with that much fuel or more, \<^verbatim>\<open>interpret\<close> returns the same
  result, a failure of the analysis or a table of start states, and a table it returns is
  a fixed point (every recorded offset is stable). \<^verbatim>\<open>update_start_state\<close> reports a change,
  and so the offset is enqueued, exactly when the table changed. Merging only widens:
  the merged state is in order, it is the recorded state when no change is reported, and
  it has strictly less room left in the lattice when a change is reported.
\<close>

theorem interpret_terminates:
  assumes "finite U" and "well_formed_stream U code transfer" and "state_ok U startState"
  shows "(\<exists>fuel r.
            (\<forall>fuel' \<ge> fuel. AbstractInterpreter_interpret fuel' code transfer startState = Some r) \<and>
            (\<forall>states. r = Inr states \<longrightarrow> fixed_point code transfer states)) \<and>
         (\<forall>newState index states changed states'.
            update_start_state newState index states = Inr (changed, states') \<longrightarrow>
              (changed \<longleftrightarrow> states' \<noteq> states)) \<and>
         (\<forall>newState mergeTo changed merged.
            state_ok U newState \<and> state_ok U mergeTo \<and>
            merge_states newState mergeTo = Inr (changed, merged) \<longrightarrow>
              state_ok U merged \<and> (changed \<longrightarrow> state_room U merged < state_room U mergeTo) \<and>
              (\<not> changed \<longrightarrow> merged = mergeTo))"
proof -
  from assms(3) have ok: "table_ok U (length code) [0 \<mapsto> startState]"
    by (simp add: table_ok_def)
  have inv: "loop_inv code transfer [0 \<mapsto> startState] [0]"
    by (simp add: loop_inv_def stable_at_def)
  from interpret_loop_terminates [OF assms(1,2) ok, of "[0]"] obtain fuel r where
    run: "interpret_loop fuel code transfer [0 \<mapsto> startState] [0] = Some r" by blast
  then have more: "\<forall>fuel' \<ge> fuel. AbstractInterpreter_interpret fuel' code transfer startState = Some r"
    unfolding AbstractInterpreter_interpret_def by (blast intro: interpret_loop_more_fuel)
  have fp: "\<forall>states. r = Inr states \<longrightarrow> fixed_point code transfer states"
    using interpret_loop_fixed_point [OF assms(1,2) _ ok inv] run by blast
  from more fp have "\<exists>fuel r.
            (\<forall>fuel' \<ge> fuel. AbstractInterpreter_interpret fuel' code transfer startState = Some r) \<and>
            (\<forall>states. r = Inr states \<longrightarrow> fixed_point code transfer states)"
    by blast
  moreover have "\<forall>newState index states changed states'.
            update_start_state newState index states = Inr (changed, states') \<longrightarrow>
              (changed \<longleftrightarrow> states' \<noteq> states)"
    using update_start_state_changed by blast
  moreover have "\<forall>newState mergeTo changed merged.
            state_ok U newState \<and> state_ok U mergeTo \<and>
            merge_states newState mergeTo = Inr (changed, merged) \<longrightarrow>
              state_ok U merged \<and> (changed \<longrightarrow> state_room U merged < state_room U mergeTo) \<and>
              (\<not> changed \<longrightarrow> merged = mergeTo)"
    using merge_states_ok [OF assms(1)] by blast
  ultimately show ?thesis by blast
qed

lemma toy_well_formed: "well_formed_stream {ConstSource 0 0} toy_code toy_transfer"
  unfolding well_formed_stream_def
proof (intro allI impI, elim conjE)
  fix cur s successors
  assume cur: "cur < length toy_code" and ok: "state_ok {ConstSource 0 0} s"
    and t: "toy_transfer (toy_code ! cur) cur s = Inr successors"
  from cur have "cur < 3"
    by (simp add: toy_code_def)
  then consider "cur = 0" | "cur = 1" | "cur = 2"
    by linarith
  then show "list_all (\<lambda>(index, s'). index \<le> length toy_code \<and> state_ok {ConstSource 0 0} s') successors"
  proof cases
    case 1
    with t have "successors = [(1, push \<lparr>Value = AV_Int, Sources = {ConstSource 0 0}\<rparr> s)]"
      by (simp add: toy_code_def)
    with ok show ?thesis
      by (simp add: toy_code_def state_ok_def sources_in_def push_def)
  next
    case 2
    with t obtain v s' l where
      p: "pop_no_escape s = Inr (v, s')" and i: "0 < length (m_locals s')" and
      l: "AbstractLocalInfo_init v False = Inr l" and
      su: "successors = [(2, s'\<lparr>m_locals := (m_locals s')[0 := l]\<rparr>)]"
      by (auto simp: toy_code_def split: sum.splits if_splits)
    from p have ne: "m_stack s \<noteq> []" and v: "v = last (m_stack s)"
      and s': "s' = s\<lparr>m_stack := butlast (m_stack s)\<rparr>"
      by (auto simp: pop_no_escape_def Let_def split: if_splits)
    from ok ne v have vs: "Sources v \<subseteq> {ConstSource 0 0}"
      by (simp add: state_ok_def sources_in_def list_all_iff)
    from ok have bl: "list_all (\<lambda>v. Sources v \<subseteq> {ConstSource 0 0}) (butlast (m_stack s))"
      by (auto simp: state_ok_def sources_in_def list_all_iff dest: in_set_butlastD)
    from l have lo: "local_ok l" by (rule AbstractLocalInfo_init_ok)
    from l have lv: "ValueInfo l = v" by (auto simp: AbstractLocalInfo_init_def split: if_splits)
    from ok vs lv lo bl show ?thesis
      by (simp add: su s' toy_code_def state_ok_def sources_in_def list_all_update)
  next
    case 3
    with t have "successors = [(0, s)]"
      by (simp add: toy_code_def)
    with ok show ?thesis
      by (simp add: toy_code_def)
  qed
qed

lemma toy_start_ok: "state_ok {ConstSource 0 0} toy_start"
  by (simp add: state_ok_def sources_in_def toy_start_def local_ok_def AbstractLocalInfo_default_def
      AbstractValueWithSources_default_def)

lemma toy_run:
  "(case AbstractInterpreter_interpret 5 toy_code toy_transfer toy_start of
      Some (Inr states) \<Rightarrow> map states [0, 1, 2, 3]
    | _ \<Rightarrow> []) =
   [Some \<lparr>m_stack = [],
          m_locals = [\<lparr>ValueInfo = \<lparr>Value = AV_Int, Sources = {ConstSource 0 0}\<rparr>, IsMaybeUndefined = True\<rparr>]\<rparr>,
    Some \<lparr>m_stack = [\<lparr>Value = AV_Int, Sources = {ConstSource 0 0}\<rparr>],
          m_locals = [\<lparr>ValueInfo = \<lparr>Value = AV_Int, Sources = {ConstSource 0 0}\<rparr>, IsMaybeUndefined = True\<rparr>]\<rparr>,
    Some \<lparr>m_stack = [],
          m_locals = [\<lparr>ValueInfo = \<lparr>Value = AV_Int, Sources = {ConstSource 0 0}\<rparr>, IsMaybeUndefined = False\<rparr>]\<rparr>,
    None]"
  by code_simp

theorem interpret_terminates_witness:
  "finite {ConstSource 0 0} \<and> well_formed_stream {ConstSource 0 0} toy_code toy_transfer \<and>
   state_ok {ConstSource 0 0} toy_start \<and>
   (\<exists>fuel r.
      (\<forall>fuel' \<ge> fuel. AbstractInterpreter_interpret fuel' toy_code toy_transfer toy_start = Some r) \<and>
      (\<forall>states. r = Inr states \<longrightarrow> fixed_point toy_code toy_transfer states))"
proof -
  have f: "finite {ConstSource 0 0}" by simp
  from interpret_terminates [OF f toy_well_formed toy_start_ok] f toy_well_formed toy_start_ok
  show ?thesis by blast
qed

end
